theory Spec2Isabelle
  imports Complex_Main "HOL-Library.Sublist" "HOL-Library.Multiset"
begin

section \<open>RDAP enrichment (\<^verbatim>\<open>code/enrichment/rdap_enrichment.py\<close>)\<close>

text \<open>
  Conventions of the embedding.
  \<^item> A Python \<^verbatim>\<open>str\<close> is a \<^typ>\<open>string\<close>, its characters the code points 0 to 255.
    White space (\<^verbatim>\<open>str.isspace\<close>) and lower-casing (\<^verbatim>\<open>str.lower\<close>, and the case folding
    of \<^verbatim>\<open>re.I\<close> between two such strings) are Python's on these code points. So is
    upper-casing (\<^verbatim>\<open>str.upper\<close>), except at U+00B5, U+00DF and U+00FF, where Python's
    result (U+039C, the two letters \<^verbatim>\<open>SS\<close>, U+0178) is not one character of this range:
    these three are left as they are. A string holding one of them is, upper-cased, here
    as in Python neither empty nor one of the tokens that the code compares with
    (none of which has an \<^verbatim>\<open>S\<close>).
  \<^item> A cell of a pandas column of dtype \<^verbatim>\<open>string\<close> is a \<^typ>\<open>string option\<close>,
    \<^term>\<open>None\<close> being \<^verbatim>\<open>pd.NA\<close> (a missing value).
  \<^item> A boolean mask over such a column has cells of type \<^typ>\<open>bool option\<close>
    (\<^term>\<open>None\<close> is \<^verbatim>\<open>pd.NA\<close>), combined by Kleene's three-valued connectives as
    pandas does. A masked assignment \<^verbatim>\<open>s[m] = v\<close> writes where the mask is
    \<^term>\<open>Some True\<close>.
  \<^item> Column-wise (vectorised) pandas code is modelled row by row: every operation of the
    source acts on each row independently of the others.
\<close>

subsection \<open>Strings\<close>

definition upper_char :: "char \<Rightarrow> char" where
  "upper_char c =
     (let n = (of_char c :: nat)
      in if (97 \<le> n \<and> n \<le> 122) \<or> (224 \<le> n \<and> n \<le> 254 \<and> n \<noteq> 247)
         then char_of (n - 32) else c)"

definition lower_char :: "char \<Rightarrow> char" where
  "lower_char c =
     (let n = (of_char c :: nat)
      in if (65 \<le> n \<and> n \<le> 90) \<or> (192 \<le> n \<and> n \<le> 222 \<and> n \<noteq> 215)
         then char_of (n + 32) else c)"

definition str_upper :: "string \<Rightarrow> string" where
  "str_upper s = map upper_char s"

definition str_lower :: "string \<Rightarrow> string" where
  "str_lower s = map lower_char s"

subsection \<open>Three-valued masks\<close>

type_synonym cell = "string option"

type_synonym mask = "bool option"

fun kand :: "mask \<Rightarrow> mask \<Rightarrow> mask" where
  "kand (Some False) _ = Some False"
| "kand _ (Some False) = Some False"
| "kand (Some True) (Some True) = Some True"
| "kand _ _ = None"

fun knot :: "mask \<Rightarrow> mask" where
  "knot (Some b) = Some (\<not> b)"
| "knot None = None"

text \<open>\<^verbatim>\<open>a == b\<close> and \<^verbatim>\<open>a != b\<close> on string columns: missing where either side is missing.\<close>

fun series_eq :: "cell \<Rightarrow> cell \<Rightarrow> mask" where
  "series_eq (Some x) (Some y) = Some (x = y)"
| "series_eq _ _ = None"

fun series_ne :: "cell \<Rightarrow> cell \<Rightarrow> mask" where
  "series_ne (Some x) (Some y) = Some (x \<noteq> y)"
| "series_ne _ _ = None"

text \<open>\<^verbatim>\<open>s.isin(keys)\<close>: never missing, a missing cell is not a member.\<close>

fun isin :: "cell \<Rightarrow> string list \<Rightarrow> mask" where
  "isin None ks = Some False"
| "isin (Some x) ks = Some (x \<in> set ks)"

subsection \<open>Consensus resolver\<close>

definition RUUA :: "(string \<times> string) list" where
  "RUUA = [(''RU'', ''Russia''), (''UA'', ''Ukraine'')]"

definition NA_TOKENS :: "string list" where
  "NA_TOKENS = ['''', ''NA'', ''N/A'', ''NONE'', ''NULL'', ''NAN'']"

text \<open>\<^verbatim>\<open>_norm_cc_series\<close>, on one cell: upper-case, then every cell that is one of the
  tokens becomes the empty string (\<^verbatim>\<open>s.where(~s.isin(tokens), "")\<close>).\<close>

definition norm_cc :: "cell \<Rightarrow> cell" where
  "norm_cc s0 =
     (let s = map_option str_upper s0
      in if knot (isin s NA_TOKENS) = Some True then s else Some '''')"

text \<open>\<^verbatim>\<open>s.map(RUUA)\<close>: the dictionary's value, missing where the key is not there.\<close>

definition map_RUUA :: "cell \<Rightarrow> cell" where
  "map_RUUA s = (case s of None \<Rightarrow> None | Some c \<Rightarrow> map_of RUUA c)"

text \<open>\<^verbatim>\<open>consensus_cols\<close>, on one row: \<open>mm0\<close> is the row's \<^verbatim>\<open>countrycode\<close> cell,
  \<open>rd0\<close> its \<^verbatim>\<open>rdap_net_cc\<close> cell. The result is the row's
  \<^verbatim>\<open>(country_consensus, consensus_rule)\<close>.\<close>

definition consensus_row :: "bool \<Rightarrow> cell \<Rightarrow> cell \<Rightarrow> cell \<times> string" where
  "consensus_row strict mm0 rd0 =
     (let mm = norm_cc mm0;
          rd = norm_cc rd0;
          cons = None;
          rule = ''no_ru_ua'';
          m_both = kand (isin mm (map fst RUUA)) (isin rd (map fst RUUA));
          m_strict = kand m_both (series_eq mm rd);
          cons = (if m_strict = Some True then map_RUUA mm else cons);
          rule = (if m_strict = Some True then ''strict'' else rule)
      in if strict then (cons, rule)
         else
           (let m_conflict = kand m_both (series_ne mm rd);
                rule = (if m_conflict = Some True then ''conflict'' else rule);
                m_mm = kand (kand (isin mm (map fst RUUA)) (knot m_strict)) (knot m_conflict);
                cons = (if m_mm = Some True then map_RUUA mm else cons);
                rule = (if m_mm = Some True then ''mm_only'' else rule);
                m_rd = kand (kand (kand (isin rd (map fst RUUA)) (knot m_strict))
                                  (knot m_conflict)) (knot m_mm);
                cons = (if m_rd = Some True then map_RUUA rd else cons);
                rule = (if m_rd = Some True then ''rdap_only'' else rule)
            in (cons, rule)))"

text \<open>The whole function: \<open>mms\<close> is the \<^verbatim>\<open>countrycode\<close> column when the frame has
  one (otherwise the source takes a column of empty strings), \<open>rds\<close> the
  \<^verbatim>\<open>rdap_net_cc\<close> column, of the same length.\<close>

definition consensus_cols :: "cell list option \<Rightarrow> cell list \<Rightarrow> bool \<Rightarrow> cell list \<times> string list" where
  "consensus_cols mms rds strict =
     (let mm = (case mms of Some c \<Rightarrow> c | None \<Rightarrow> replicate (length rds) (Some ''''));
          rs = map2 (consensus_row strict) mm rds
      in (map fst rs, map snd rs))"

text \<open>The resolution rules in the words of the specification, on normalised codes.\<close>

definition tracked :: "cell \<Rightarrow> bool" where
  "tracked c = (c = Some ''RU'' \<or> c = Some ''UA'')"

definition label_of :: "cell \<Rightarrow> cell" where
  "label_of c = (if c = Some ''RU'' then Some ''Russia''
                 else if c = Some ''UA'' then Some ''Ukraine'' else None)"

definition resolve_spec :: "cell \<Rightarrow> cell \<Rightarrow> cell \<times> string" where
  "resolve_spec mm rd =
     (if tracked mm \<and> tracked rd \<and> mm = rd then (label_of mm, ''strict'')
      else if tracked mm \<and> tracked rd then (None, ''conflict'')
      else if tracked mm then (label_of mm, ''mm_only'')
      else if tracked rd then (label_of rd, ''rdap_only'')
      else (None, ''no_ru_ua''))"

definition resolve_strict_spec :: "cell \<Rightarrow> cell \<Rightarrow> cell \<times> string" where
  "resolve_strict_spec mm rd =
     (if tracked mm \<and> tracked rd \<and> mm = rd then (label_of mm, ''strict'')
      else (None, ''no_ru_ua''))"

subsection \<open>Python values, exceptions\<close>

text \<open>
  The values that \<^verbatim>\<open>json.loads\<close> produces and that the cache holds: \<^verbatim>\<open>None\<close>, booleans,
  numbers (integers here), strings, lists and dictionaries. A dictionary is an association
  list; a key is looked up with \<^const>\<open>map_of\<close>.
\<close>

datatype json =
    JNull
  | JBool bool
  | JNum int
  | JStr string
  | JArr "json list"
  | JObj "(string \<times> json) list"

text \<open>An exception is its class together with its text, \<^verbatim>\<open>str(e)\<close>. \<open>Failure\<close> is any
  exception of the lookup client (network errors, HTTP errors, rate limiting).\<close>

datatype exn =
    AttributeError string
  | KeyError string
  | ZeroDivisionError string
  | Failure string

fun str_exn :: "exn \<Rightarrow> string" where
  "str_exn (AttributeError t) = t"
| "str_exn (KeyError t) = t"
| "str_exn (ZeroDivisionError t) = t"
| "str_exn (Failure t) = t"

text \<open>Truth value testing (\<^verbatim>\<open>bool(x)\<close>, \<^verbatim>\<open>not x\<close>, \<^verbatim>\<open>x or y\<close>).\<close>

fun truthy :: "json \<Rightarrow> bool" where
  "truthy JNull = False"
| "truthy (JBool b) = b"
| "truthy (JNum n) = (n \<noteq> 0)"
| "truthy (JStr s) = (s \<noteq> [])"
| "truthy (JArr xs) = (xs \<noteq> [])"
| "truthy (JObj kvs) = (kvs \<noteq> [])"

definition py_or :: "json \<Rightarrow> json \<Rightarrow> json" where
  "py_or a b = (if truthy a then a else b)"

text \<open>\<^verbatim>\<open>x.get(k)\<close>: the value or \<^verbatim>\<open>None\<close> on a dictionary, an \<^verbatim>\<open>AttributeError\<close> on
  anything else.\<close>

definition py_get :: "json \<Rightarrow> string \<Rightarrow> exn + json" where
  "py_get x k =
     (case x of
        JObj kvs \<Rightarrow> Inr (case map_of kvs k of Some v \<Rightarrow> v | None \<Rightarrow> JNull)
      | _ \<Rightarrow> Inl (AttributeError ''object has no attribute get''))"

text \<open>\<^verbatim>\<open>str.strip()\<close> and \<^verbatim>\<open>str.upper()\<close> on a value: an \<^verbatim>\<open>AttributeError\<close> unless it is a
  string. White space is what \<^verbatim>\<open>str.isspace\<close> accepts among the code points 0 to 255:
  9 to 13, 28 to 32, U+0085 and U+00A0.\<close>

definition is_space :: "char \<Rightarrow> bool" where
  "is_space c =
     (let n = (of_char c :: nat)
      in (9 \<le> n \<and> n \<le> 13) \<or> (28 \<le> n \<and> n \<le> 32) \<or> n = 133 \<or> n = 160)"

definition str_strip :: "string \<Rightarrow> string" where
  "str_strip s = rev (dropWhile is_space (rev (dropWhile is_space s)))"

definition py_strip :: "json \<Rightarrow> exn + json" where
  "py_strip x =
     (case x of JStr s \<Rightarrow> Inr (JStr (str_strip s))
      | _ \<Rightarrow> Inl (AttributeError ''object has no attribute strip''))"

definition py_upper :: "json \<Rightarrow> exn + json" where
  "py_upper x =
     (case x of JStr s \<Rightarrow> Inr (JStr (str_upper s))
      | _ \<Rightarrow> Inl (AttributeError ''object has no attribute upper''))"

text \<open>Sequencing of computations that may raise, and \<^verbatim>\<open>try: ... except Exception as e:\<close>.\<close>

definition bind_exn :: "exn + 'a \<Rightarrow> ('a \<Rightarrow> exn + 'b) \<Rightarrow> exn + 'b" where
  "bind_exn m f = (case m of Inl e \<Rightarrow> Inl e | Inr v \<Rightarrow> f v)"

definition try_except :: "exn + 'a \<Rightarrow> (exn \<Rightarrow> exn + 'a) \<Rightarrow> exn + 'a" where
  "try_except body handler = (case body of Inl e \<Rightarrow> handler e | Inr v \<Rightarrow> Inr v)"

subsection \<open>Cache store: \<^verbatim>\<open>load_cache\<close>\<close>

text \<open>
  One line of the log, the body of the \<^verbatim>\<open>try\<close>: \<^verbatim>\<open>o = json.loads(line)\<close>, then
  \<^verbatim>\<open>d[str(o["ip"])] = o["data"]\<close>, whose right-hand side is evaluated first. The parser
  is the library's and is a parameter: \<open>json_loads line\<close> is \<^term>\<open>None\<close> when the line
  does not parse. So is \<^verbatim>\<open>str\<close> on a parsed value. Subscripting raises on a missing key
  and on a value that is not a dictionary.
\<close>

definition getitem :: "json \<Rightarrow> string \<Rightarrow> json option" where
  "getitem x k = (case x of JObj kvs \<Rightarrow> map_of kvs k | _ \<Rightarrow> None)"

definition try_record ::
  "('l \<Rightarrow> json option) \<Rightarrow> (json \<Rightarrow> string) \<Rightarrow> 'l \<Rightarrow> (string \<times> json) option" where
  "try_record json_loads py_str line =
     (case json_loads line of
        None \<Rightarrow> None
      | Some ob \<Rightarrow>
          (case getitem ob ''data'' of
             None \<Rightarrow> None
           | Some dat \<Rightarrow>
               (case getitem ob ''ip'' of
                  None \<Rightarrow> None
                | Some ip \<Rightarrow> Some (py_str ip, dat))))"

text \<open>The loop over the lines; a line whose \<^verbatim>\<open>try\<close> body raised leaves the dictionary as
  it was (\<^verbatim>\<open>except Exception: pass\<close>).\<close>

fun load_lines ::
  "('l \<Rightarrow> json option) \<Rightarrow> (json \<Rightarrow> string) \<Rightarrow> (string \<rightharpoonup> json) \<Rightarrow> 'l list \<Rightarrow> (string \<rightharpoonup> json)" where
  "load_lines json_loads py_str d [] = d"
| "load_lines json_loads py_str d (line # rest) =
     (case try_record json_loads py_str line of
        Some (k, v) \<Rightarrow> load_lines json_loads py_str (d(k \<mapsto> v)) rest
      | None \<Rightarrow> load_lines json_loads py_str d rest)"

text \<open>\<^verbatim>\<open>load_cache\<close>: \<open>file\<close> is \<^term>\<open>None\<close> when the path does not exist, else the
  lines of the file in order.\<close>

definition load_cache ::
  "('l \<Rightarrow> json option) \<Rightarrow> (json \<Rightarrow> string) \<Rightarrow> 'l list option \<Rightarrow> (string \<rightharpoonup> json)" where
  "load_cache json_loads py_str file =
     (case file of None \<Rightarrow> Map.empty | Some ls \<Rightarrow> load_lines json_loads py_str Map.empty ls)"

text \<open>The valid records of a log, in order, and the last one bearing a key.\<close>

definition valid_records ::
  "('l \<Rightarrow> json option) \<Rightarrow> (json \<Rightarrow> string) \<Rightarrow> 'l list \<Rightarrow> (string \<times> json) list" where
  "valid_records json_loads py_str ls = List.map_filter (try_record json_loads py_str) ls"

definition last_record :: "(string \<times> json) list \<Rightarrow> string \<Rightarrow> json option" where
  "last_record rs k = map_of (rev rs) k"

subsection \<open>Sharding: the assignment in \<^verbatim>\<open>main\<close>\<close>

text \<open>\<^verbatim>\<open>[p for i, p in enumerate(all_csvs) if (i % max(1, SHARD_TOTAL)) == SHARD_IDX]\<close>.
  The modulus is at least 1, where Python's \<^verbatim>\<open>%\<close> and \<^const>\<open>modulo\<close> on \<^typ>\<open>int\<close>
  agree.\<close>

definition my_jobs :: "int \<Rightarrow> int \<Rightarrow> 'a list \<Rightarrow> 'a list" where
  "my_jobs SHARD_TOTAL SHARD_IDX all_csvs =
     map snd (filter (\<lambda>(i, p). int i mod max 1 SHARD_TOTAL = SHARD_IDX) (enumerate 0 all_csvs))"

subsection \<open>Data frames\<close>

text \<open>
  A row of the input frame: its \<^verbatim>\<open>asnum\<close> cell, which \<^verbatim>\<open>process_csv\<close> has converted
  to \<^verbatim>\<open>Int64\<close> (an integer or missing) before anything else looks at it, and its text
  cells by column name (\<^verbatim>\<open>src\<close>, \<^verbatim>\<open>countrycode\<close>, \<^verbatim>\<open>domain\<close>, \<^verbatim>\<open>asorg\<close>, \<^verbatim>\<open>org\<close>,
  \<^verbatim>\<open>isp\<close>, \<^verbatim>\<open>rdap_org\<close>). A frame lists the columns it has; the cell of a column that
  the frame does not have is never read.
\<close>

record row =
  asnum :: "int option"
  cells :: "string \<Rightarrow> cell"

record frame =
  columns :: "string list"
  rows :: "row list"

subsection \<open>CDN/cloud filter: \<^verbatim>\<open>exclude_cdn\<close>\<close>

definition DEFAULT_CDN_ASNS :: "int list" where
  "DEFAULT_CDN_ASNS =
     [13335, 20940, 32787, 54113, 199524, 12989,
      16509, 14618, 15169, 8075, 31898, 45102, 20473, 14061, 63949,
      16276, 24940, 9009, 60781, 32934, 174, 262254, 57724, 209242, 132203]"

definition DEFAULT_DOMAIN_KEYS :: "string list" where
  "DEFAULT_DOMAIN_KEYS =
     [''cloudflare'', ''akamai'', ''amazonaws'', ''cloudfront'', ''fastly'', ''cdn'',
      ''googleusercontent'', ''azure'', ''aliyuncs'', ''oraclecloud'',
      ''linodeusercontent'', ''digitaloceanspaces'', ''edgesuite'', ''edgekey'',
      ''cdn77'', ''gcore'', ''stackpath'']"

definition DEFAULT_ORG_KEYS :: "string list" where
  "DEFAULT_ORG_KEYS =
     [''cloudflare'', ''akamai'', ''fastly'', ''amazon'', ''aws'', ''google'', ''microsoft'',
      ''azure'', ''oracle'', ''alibaba'', ''tencent'', ''linode'', ''digitalocean'', ''ovh'',
      ''hetzner'', ''meta'', ''facebook'', ''leaseweb'', ''g-core'', ''gcore'', ''stackpath'',
      ''ddos-guard'', ''ddos guard'', ''qrator'']"

text \<open>
  The three configured lists. \<open>env\<close> is what the environment variable gives after
  splitting at commas, stripping, dropping empty items (and lower-casing, for the
  keywords): \<^verbatim>\<open>[...] or _DEFAULT\<close> takes the default when that list is empty.
\<close>

definition CDN_ASNS :: "int list \<Rightarrow> int list" where
  "CDN_ASNS env = (if env \<noteq> [] then env else DEFAULT_CDN_ASNS)"

definition CDN_DOMAIN_KEYS :: "string list \<Rightarrow> string list" where
  "CDN_DOMAIN_KEYS env = (if env \<noteq> [] then env else DEFAULT_DOMAIN_KEYS)"

definition CDN_ORG_KEYS :: "string list \<Rightarrow> string list" where
  "CDN_ORG_KEYS env = (if env \<noteq> [] then env else DEFAULT_ORG_KEYS)"

text \<open>
  \<^verbatim>\<open>re.compile("|".join(map(re.escape, keys)), re.I)\<close> searched in a string: the pattern
  is an alternation of literal keywords, matched anywhere and without regard to case, so
  it matches when some keyword occurs in the string; the pattern of no keywords is the
  empty pattern, which matches every string.
\<close>

definition re_search :: "string list \<Rightarrow> string \<Rightarrow> bool" where
  "re_search keys s =
     (if keys = [] then True else list_ex (\<lambda>k. sublist (str_lower k) (str_lower s)) keys)"

text \<open>\<^verbatim>\<open>col.str.contains(regex, na=False)\<close> on one cell.\<close>

definition str_contains :: "string list \<Rightarrow> cell \<Rightarrow> bool" where
  "str_contains keys c = (case c of None \<Rightarrow> False | Some s \<Rightarrow> re_search keys s)"

text \<open>\<^verbatim>\<open>" ".join(xs)\<close>.\<close>

fun join_space :: "string list \<Rightarrow> string" where
  "join_space [] = []"
| "join_space [x] = x"
| "join_space (x # y # ys) = x @ '' '' @ join_space (y # ys)"

definition fillna :: "cell \<Rightarrow> string" where
  "fillna c = (case c of None \<Rightarrow> [] | Some s \<Rightarrow> s)"

definition m_dom :: "string list \<Rightarrow> frame \<Rightarrow> row \<Rightarrow> bool" where
  "m_dom dom_keys df r =
     (if ''domain'' \<in> set (columns df) then str_contains dom_keys (cells r ''domain'') else False)"

definition m_asn :: "int list \<Rightarrow> frame \<Rightarrow> row \<Rightarrow> bool" where
  "m_asn asns df r =
     (if ''asnum'' \<in> set (columns df)
      then (case asnum r of None \<Rightarrow> False | Some n \<Rightarrow> n \<in> set asns)
      else False)"

definition org_cols :: "frame \<Rightarrow> string list" where
  "org_cols df = filter (\<lambda>c. c \<in> set (columns df)) [''asorg'', ''org'', ''isp'', ''rdap_org'']"

definition joined :: "frame \<Rightarrow> row \<Rightarrow> string" where
  "joined df r = join_space (map (\<lambda>c. fillna (cells r c)) (org_cols df))"

definition m_org :: "string list \<Rightarrow> frame \<Rightarrow> row \<Rightarrow> bool" where
  "m_org org_keys df r =
     (if org_cols df \<noteq> [] then str_contains org_keys (Some (joined df r)) else False)"

definition exclude_cdn :: "string list \<Rightarrow> int list \<Rightarrow> string list \<Rightarrow> frame \<Rightarrow> frame" where
  "exclude_cdn dom_keys asns org_keys df =
     df\<lparr>rows := filter (\<lambda>r. \<not> (m_dom dom_keys df r \<or> m_asn asns df r \<or> m_org org_keys df r))
                       (rows df)\<rparr>"

text \<open>The three signals in the words of the specification.\<close>

definition contains_ci :: "string \<Rightarrow> string \<Rightarrow> bool" where
  "contains_ci s k = sublist (str_lower k) (str_lower s)"

definition domain_signal :: "string list \<Rightarrow> frame \<Rightarrow> row \<Rightarrow> bool" where
  "domain_signal keys df r =
     (''domain'' \<in> set (columns df)
      \<and> (\<exists>s. cells r ''domain'' = Some s \<and> (\<exists>k \<in> set keys. contains_ci s k)))"

definition asn_signal :: "int list \<Rightarrow> frame \<Rightarrow> row \<Rightarrow> bool" where
  "asn_signal asns df r =
     (''asnum'' \<in> set (columns df) \<and> (\<exists>n. asnum r = Some n \<and> n \<in> set asns))"

definition org_signal :: "string list \<Rightarrow> frame \<Rightarrow> row \<Rightarrow> bool" where
  "org_signal keys df r =
     (org_cols df \<noteq> [] \<and> (\<exists>k \<in> set keys. contains_ci (joined df r) k))"

subsection \<open>Selection of the IPs to look up, in \<^verbatim>\<open>process_csv\<close>\<close>

text \<open>
  The candidate IPs: the distinct \<^verbatim>\<open>src\<close> values that are present, restricted to the
  rows whose upper-cased \<^verbatim>\<open>countrycode\<close> is RU or UA when \<^verbatim>\<open>RDAP_ONLY_RUUA\<close> is set and
  the column is there. The source builds the list from a Python set, whose order is not
  fixed; one order without repetitions is taken here. \<^verbatim>\<open>astype(str)\<close> turns a missing
  \<^verbatim>\<open>src\<close> into the text \<^verbatim>\<open>nan\<close>.
\<close>

definition astype_str :: "cell \<Rightarrow> string" where
  "astype_str c = (case c of None \<Rightarrow> ''nan'' | Some s \<Rightarrow> s)"

definition candidate_ips :: "int \<Rightarrow> frame \<Rightarrow> string list" where
  "candidate_ips RDAP_ONLY_RUUA df =
     (let ips = remdups (List.map_filter (\<lambda>r. cells r ''src'') (rows df))
      in if RDAP_ONLY_RUUA \<noteq> 0 \<and> ''countrycode'' \<in> set (columns df)
         then (let cand = map (\<lambda>r. astype_str (cells r ''src''))
                            (filter (\<lambda>r. isin (map_option str_upper (cells r ''countrycode''))
                                              [''RU'', ''UA''] = Some True) (rows df))
               in filter (\<lambda>ip. ip \<in> set cand) ips)
         else ips)"

datatype verdict = Skip | Candidate

text \<open>The body of the loop up to the budget test, for the value \<open>c0\<close> of
  \<^verbatim>\<open>cache.get(ip)\<close>: \<open>Skip\<close> is \<^verbatim>\<open>continue\<close>.\<close>

definition decide :: "int \<Rightarrow> int \<Rightarrow> json option \<Rightarrow> exn + verdict" where
  "decide RDAP_RETRY_BAD_CACHE RDAP_RETRY_EMPTY_CC c0 =
     (let c = (case c0 of None \<Rightarrow> JNull | Some v \<Rightarrow> v)
      in if \<not> truthy c then Inr Candidate
         else
           bind_exn (py_get c ''ok'') (\<lambda>okv.
           bind_exn (py_get c ''rdap_net_cc'') (\<lambda>ccv.
           bind_exn (py_strip (py_or ccv (JStr ''''))) (\<lambda>st.
           bind_exn (py_upper st) (\<lambda>cc.
             let ok = truthy okv
             in if \<not> ok \<and> RDAP_RETRY_BAD_CACHE = 0 then Inr Skip
                else if ok \<and> cc = JStr '''' \<and> RDAP_RETRY_EMPTY_CC \<noteq> 0 then Inr Candidate
                else if ok then Inr Skip
                else Inr Candidate)))))"

fun select_loop ::
  "int \<Rightarrow> int \<Rightarrow> int \<Rightarrow> (string \<rightharpoonup> json) \<Rightarrow> string list \<Rightarrow> string list \<Rightarrow> nat
     \<Rightarrow> exn + string list" where
  "select_loop RDAP_BUDGET rb re cache [] to_query used = Inr to_query"
| "select_loop RDAP_BUDGET rb re cache (ip # ips) to_query used =
     (case decide rb re (cache ip) of
        Inl e \<Rightarrow> Inl e
      | Inr Skip \<Rightarrow> select_loop RDAP_BUDGET rb re cache ips to_query used
      | Inr Candidate \<Rightarrow>
          if RDAP_BUDGET \<noteq> 0 \<and> int used \<ge> RDAP_BUDGET then Inr to_query
          else select_loop RDAP_BUDGET rb re cache ips (to_query @ [ip]) (Suc used))"

definition to_query :: "int \<Rightarrow> int \<Rightarrow> int \<Rightarrow> (string \<rightharpoonup> json) \<Rightarrow> string list \<Rightarrow> exn + string list" where
  "to_query RDAP_BUDGET RDAP_RETRY_BAD_CACHE RDAP_RETRY_EMPTY_CC cache ips =
     select_loop RDAP_BUDGET RDAP_RETRY_BAD_CACHE RDAP_RETRY_EMPTY_CC cache ips [] 0"

text \<open>
  The selection policy in the words of the specification. A cached entry is a non-empty
  dictionary stored under the IP (\<^verbatim>\<open>if not c\<close> treats \<^verbatim>\<open>None\<close> and the empty dictionary as
  no entry). Its \<^verbatim>\<open>ok\<close> flag is the truth value of its \<^verbatim>\<open>ok\<close> item, its country code the
  stripped, upper-cased \<^verbatim>\<open>rdap_net_cc\<close> item (empty when that is missing or null). An
  entry is well formed when it is a dictionary whose \<^verbatim>\<open>rdap_net_cc\<close> is a string or
  false-like, which is what \<^verbatim>\<open>rdap_lookup\<close> writes.
\<close>

definition cached :: "(string \<rightharpoonup> json) \<Rightarrow> string \<Rightarrow> json option" where
  "cached cache ip = (case cache ip of None \<Rightarrow> None | Some c \<Rightarrow> if truthy c then Some c else None)"

definition entry_ok :: "json \<Rightarrow> bool" where
  "entry_ok c = (case getitem c ''ok'' of Some v \<Rightarrow> truthy v | None \<Rightarrow> False)"

definition entry_cc :: "json \<Rightarrow> string" where
  "entry_cc c = (case getitem c ''rdap_net_cc'' of Some (JStr s) \<Rightarrow> str_upper (str_strip s) | _ \<Rightarrow> [])"

definition well_formed :: "json \<Rightarrow> bool" where
  "well_formed c =
     (case c of
        JObj kvs \<Rightarrow> (case map_of kvs ''rdap_net_cc'' of
                       None \<Rightarrow> True | Some (JStr s) \<Rightarrow> True | Some v \<Rightarrow> \<not> truthy v)
      | _ \<Rightarrow> False)"

definition well_formed_cache :: "(string \<rightharpoonup> json) \<Rightarrow> string list \<Rightarrow> bool" where
  "well_formed_cache cache ips =
     list_all (\<lambda>ip. case cached cache ip of None \<Rightarrow> True | Some c \<Rightarrow> well_formed c) ips"

definition scheduled_spec :: "bool \<Rightarrow> bool \<Rightarrow> json option \<Rightarrow> bool" where
  "scheduled_spec retry_failed retry_empty_cc entry =
     (case entry of
        None \<Rightarrow> True
      | Some c \<Rightarrow> if entry_ok c then retry_empty_cc \<and> entry_cc c = [] else retry_failed)"

definition within_budget :: "int \<Rightarrow> 'a list \<Rightarrow> 'a list" where
  "within_budget budget xs = (if budget = 0 then xs else take (nat budget) xs)"

subsection \<open>The RDAP frame and the merge, in \<^verbatim>\<open>process_csv\<close>\<close>

record rdap_fields =
  rdap_ok :: "bool option"
  rdap_net_cc :: json
  rdap_org :: json
  rdap_cidr :: json
  rir :: json
  rdap_error :: json

definition null_fields :: rdap_fields where
  "null_fields = \<lparr>rdap_ok = None, rdap_net_cc = JNull, rdap_org = JNull, rdap_cidr = JNull,
                  rir = JNull, rdap_error = JNull\<rparr>"

text \<open>One iteration of the loop that builds \<^verbatim>\<open>rows\<close>: \<^verbatim>\<open>r = cache.get(ip) or {}\<close>, then each
  field is \<^verbatim>\<open>... if r else None\<close>.\<close>

definition rd_row :: "(string \<rightharpoonup> json) \<Rightarrow> string \<Rightarrow> exn + rdap_fields" where
  "rd_row cache ip =
     (let r = py_or (case cache ip of None \<Rightarrow> JNull | Some v \<Rightarrow> v) (JObj [])
      in if truthy r then
           bind_exn (py_get r ''ok'') (\<lambda>okv.
           bind_exn (py_get r ''rdap_net_cc'') (\<lambda>ccv.
           bind_exn (py_get r ''rdap_org'') (\<lambda>orgv.
           bind_exn (py_get r ''rdap_cidr'') (\<lambda>cidrv.
           bind_exn (py_get r ''rir'') (\<lambda>rirv.
           bind_exn (py_get r ''error'') (\<lambda>errv.
             Inr \<lparr>rdap_ok = Some (truthy okv), rdap_net_cc = py_or ccv JNull, rdap_org = orgv,
                  rdap_cidr = cidrv, rir = rirv, rdap_error = errv\<rparr>))))))
         else Inr null_fields)"

fun build_rows :: "(string \<rightharpoonup> json) \<Rightarrow> string list \<Rightarrow> exn + (string \<times> rdap_fields) list" where
  "build_rows cache [] = Inr []"
| "build_rows cache (ip # ips) =
     bind_exn (rd_row cache ip) (\<lambda>f.
     bind_exn (build_rows cache ips) (\<lambda>rest. Inr ((ip, f) # rest)))"

text \<open>
  \<^verbatim>\<open>df.merge(rd, on="src", how="left")\<close>: every row of \<open>df\<close> once, in order, with the
  fields of the row of \<open>rd\<close> that has its \<^verbatim>\<open>src\<close> (the IPs of \<open>rd\<close> are distinct), and
  missing values where there is none. A frame built from an empty list of rows has no
  column \<^verbatim>\<open>src\<close>, and pandas raises \<^verbatim>\<open>KeyError\<close>.
\<close>

definition merge_left :: "row list \<Rightarrow> (string \<times> rdap_fields) list \<Rightarrow> exn + (row \<times> rdap_fields) list" where
  "merge_left df rd =
     (if rd = [] then Inl (KeyError ''src'')
      else Inr (map (\<lambda>r. (r, case cells r ''src'' of
                               None \<Rightarrow> null_fields
                             | Some ip \<Rightarrow> (case map_of rd ip of None \<Rightarrow> null_fields | Some f \<Rightarrow> f)))
                    df))"

text \<open>The end of \<^verbatim>\<open>process_csv\<close>, from the candidate IPs on, with the cache as it is
  after the lookups.\<close>

definition merged_output :: "int \<Rightarrow> (string \<rightharpoonup> json) \<Rightarrow> frame \<Rightarrow> exn + (row \<times> rdap_fields) list" where
  "merged_output RDAP_ONLY_RUUA cache df =
     bind_exn (build_rows cache (candidate_ips RDAP_ONLY_RUUA df)) (\<lambda>rd. merge_left (rows df) rd)"

text \<open>The cache entry that the merge sees for a row: the non-empty entry of the row's
  \<^verbatim>\<open>src\<close>, when that is one of the candidate IPs.\<close>

definition entry_at_merge :: "int \<Rightarrow> (string \<rightharpoonup> json) \<Rightarrow> frame \<Rightarrow> row \<Rightarrow> json option" where
  "entry_at_merge ruua cache df r =
     (case cells r ''src'' of
        None \<Rightarrow> None
      | Some ip \<Rightarrow> if ip \<in> set (candidate_ips ruua df) then cached cache ip else None)"

subsection \<open>Rate limiter: \<^verbatim>\<open>_rate_limit_token_bucket\<close>\<close>

text \<open>
  The token bucket's two global variables. Python floats are taken as real numbers.
  \<open>now\<close> is the reading of \<^verbatim>\<open>time.monotonic()\<close>. Dividing by a zero \<^verbatim>\<open>RDAP_QPS\<close> raises
  \<^verbatim>\<open>ZeroDivisionError\<close>; the assignments made before that stay.
\<close>

record bucket =
  tb_tokens :: real
  tb_last :: real

definition rate_limit_token_bucket :: "real \<Rightarrow> int \<Rightarrow> real \<Rightarrow> bucket \<Rightarrow> (exn + real) \<times> bucket" where
  "rate_limit_token_bucket RDAP_QPS RDAP_BURST now b0 =
     (let add = (now - tb_last b0) * RDAP_QPS;
          b = (if add > 0
               then b0\<lparr>tb_tokens := min (of_int RDAP_BURST) (tb_tokens b0 + add), tb_last := now\<rparr>
               else b0)
      in if tb_tokens b \<ge> 1 then (Inr 0, b\<lparr>tb_tokens := tb_tokens b - 1\<rparr>)
         else
           (let need = 1 - tb_tokens b
            in if RDAP_QPS = 0 then (Inl (ZeroDivisionError ''float division by zero''), b)
               else (Inr (max 0 (need / RDAP_QPS)), b)))"

text \<open>The state at import: \<^verbatim>\<open>_tb_tokens = float(RDAP_BURST)\<close>, \<^verbatim>\<open>_tb_last = time.monotonic()\<close>.\<close>

definition tb_init :: "int \<Rightarrow> real \<Rightarrow> bucket" where
  "tb_init RDAP_BURST t0 = \<lparr>tb_tokens = of_int RDAP_BURST, tb_last = t0\<rparr>"

text \<open>Consecutive acquisitions, at the clock readings of the list.\<close>

fun acquire_seq :: "real \<Rightarrow> int \<Rightarrow> real list \<Rightarrow> bucket \<Rightarrow> (exn + real) list \<times> bucket" where
  "acquire_seq qps burst [] b = ([], b)"
| "acquire_seq qps burst (now # nows) b =
     (case rate_limit_token_bucket qps burst now b of
        (w, b') \<Rightarrow> (case acquire_seq qps burst nows b' of (ws, b'') \<Rightarrow> (w # ws, b'')))"

subsection \<open>Backoff: \<^verbatim>\<open>_with_backoff\<close>\<close>

definition is_transient :: "string \<Rightarrow> bool" where
  "is_transient text_of_e =
     (let msg = str_lower text_of_e
      in sublist ''429'' msg \<or> sublist ''rate'' msg \<or> sublist ''too many'' msg)"

text \<open>
  The wrapped callable has effects, so its outcome may differ from call to call:
  \<open>func k\<close> is the outcome of call number \<open>k\<close> (from 0), an exception or a value, and
  \<open>rnd k\<close> the value of \<^verbatim>\<open>random.random()\<close> drawn after call \<open>k\<close> failed. The loop
  \<^verbatim>\<open>for _ in range(6)\<close> is a recursion on the iterations left; it carries the delay, the
  number of calls made and the sleeps made. Its result is \<^term>\<open>None\<close> when the loop
  runs out.
\<close>

fun backoff_loop ::
  "nat \<Rightarrow> (nat \<Rightarrow> exn + 'a) \<Rightarrow> (nat \<Rightarrow> real) \<Rightarrow> real \<Rightarrow> nat \<Rightarrow> real list
     \<Rightarrow> (exn + 'a) option \<times> nat \<times> real list" where
  "backoff_loop 0 func rnd delay k slept = (None, k, slept)"
| "backoff_loop (Suc n) func rnd delay k slept =
     (case func k of
        Inr v \<Rightarrow> (Some (Inr v), Suc k, slept)
      | Inl e \<Rightarrow>
          if is_transient (str_exn e)
          then backoff_loop n func rnd (min (delay * 2) 16) (Suc k)
                 (slept @ [delay + rnd k * delay * 0.2])
          else (Some (Inl e), Suc k, slept))"

text \<open>\<^verbatim>\<open>_with_backoff\<close>: what it returns or raises, how often it called \<open>func\<close>, and the
  sleeps it made.\<close>

definition with_backoff :: "(nat \<Rightarrow> exn + 'a) \<Rightarrow> (nat \<Rightarrow> real) \<Rightarrow> (exn + 'a) \<times> nat \<times> real list" where
  "with_backoff func rnd =
     (case backoff_loop 6 func rnd 0.5 0 [] of
        (Some r, k, slept) \<Rightarrow> (r, k, slept)
      | (None, k, slept) \<Rightarrow> (func k, Suc k, slept))"

text \<open>The backoff policy in the words of the specification.\<close>

definition transient_failure :: "exn + 'a \<Rightarrow> bool" where
  "transient_failure r = (case r of Inl e \<Rightarrow> is_transient (str_exn e) | Inr v \<Rightarrow> False)"

definition delay_at :: "nat \<Rightarrow> real" where
  "delay_at i = min (0.5 * 2 ^ i) 16"

definition sleep_at :: "(nat \<Rightarrow> real) \<Rightarrow> nat \<Rightarrow> real" where
  "sleep_at rnd i = delay_at i + rnd i * delay_at i * 0.2"

subsection \<open>Per-IP lookup: \<^verbatim>\<open>rdap_lookup\<close>\<close>

text \<open>The normalisation of a lookup result \<open>r\<close>, after \<^verbatim>\<open>_with_backoff\<close> has returned it.\<close>

definition normalize_result :: "json \<Rightarrow> exn + json" where
  "normalize_result r =
     bind_exn (py_get r ''network'') (\<lambda>network.
       let net = py_or network (JObj [])
       in bind_exn (py_get net ''country'') (\<lambda>country.
          bind_exn (py_upper (py_or country (JStr ''''))) (\<lambda>cc.
          bind_exn (py_get net ''name'') (\<lambda>name.
          bind_exn (py_get r ''asn_description'') (\<lambda>asn_description.
          bind_exn (py_get net ''cidr'') (\<lambda>cidr.
          bind_exn (py_get r ''nir'') (\<lambda>nir.
          bind_exn (py_get r ''asn_registry'') (\<lambda>asn_registry.
            Inr (JObj [(''ok'', JBool True),
                       (''rdap_net_cc'', py_or cc JNull),
                       (''rdap_org'', py_or name asn_description),
                       (''rdap_cidr'', cidr),
                       (''rir'', py_or nir asn_registry)])))))))))"

definition failure_entry :: "exn \<Rightarrow> json" where
  "failure_entry e = JObj [(''ok'', JBool False), (''error'', JStr (str_exn e))]"

text \<open>
  The body of the \<^verbatim>\<open>try\<close>: the rate limiter (a positive wait is slept, which changes no
  value), the lookup under backoff, the normalisation. \<open>func\<close> is the sequence of outcomes
  of \<^verbatim>\<open>_lookup_rdap_compat\<close> for this IP.
\<close>

definition rdap_lookup_body ::
  "real \<Rightarrow> int \<Rightarrow> real \<Rightarrow> bucket \<Rightarrow> (nat \<Rightarrow> exn + json) \<Rightarrow> (nat \<Rightarrow> real) \<Rightarrow> (exn + json) \<times> bucket" where
  "rdap_lookup_body RDAP_QPS RDAP_BURST now b func rnd =
     (case rate_limit_token_bucket RDAP_QPS RDAP_BURST now b of
        (Inl e, b') \<Rightarrow> (Inl e, b')
      | (Inr wait, b') \<Rightarrow> (bind_exn (fst (with_backoff func rnd)) normalize_result, b'))"

definition rdap_lookup ::
  "real \<Rightarrow> int \<Rightarrow> real \<Rightarrow> bucket \<Rightarrow> (nat \<Rightarrow> exn + json) \<Rightarrow> (nat \<Rightarrow> real) \<Rightarrow> (exn + json) \<times> bucket" where
  "rdap_lookup RDAP_QPS RDAP_BURST now b func rnd =
     (case rdap_lookup_body RDAP_QPS RDAP_BURST now b func rnd of
        (res, b') \<Rightarrow> (try_except res (\<lambda>e. Inr (failure_entry e)), b'))"

text \<open>A success entry: \<^verbatim>\<open>ok\<close> is true, and the country code is null or a non-empty
  upper-cased string.\<close>

definition success_entry :: "json \<Rightarrow> bool" where
  "success_entry d =
     (\<exists>cc org cidr reg.
        d = JObj [(''ok'', JBool True), (''rdap_net_cc'', cc), (''rdap_org'', org),
                  (''rdap_cidr'', cidr), (''rir'', reg)]
        \<and> (cc = JNull \<or> (\<exists>s. s \<noteq> [] \<and> cc = JStr (str_upper s))))"

section \<open>Properties\<close>

subsection \<open>Consensus resolver\<close>

lemma kand_Some: "kand (Some a) (Some b) = Some (a \<and> b)"
  by (cases a; cases b) simp_all

lemma isin_RUUA: "isin c (map fst RUUA) = Some (tracked c)"
  by (cases c) (auto simp: RUUA_def tracked_def)

lemma map_RUUA_label: "tracked c \<Longrightarrow> map_RUUA c = label_of c"
  by (auto simp: tracked_def map_RUUA_def label_of_def RUUA_def)

lemma tracked_series_eq: "tracked a \<Longrightarrow> tracked b \<Longrightarrow> series_eq a b = Some (a = b)"
  by (auto simp: tracked_def)

lemma tracked_series_ne: "tracked a \<Longrightarrow> tracked b \<Longrightarrow> series_ne a b = Some (a \<noteq> b)"
  by (auto simp: tracked_def)

lemma consensus_row_nonstrict:
  "consensus_row False mm rd = resolve_spec (norm_cc mm) (norm_cc rd)"
proof -
  define a where "a = norm_cc mm"
  define b where "b = norm_cc rd"
  consider (both_eq) "tracked a" "tracked b" "a = b"
    | (both_ne) "tracked a" "tracked b" "a \<noteq> b"
    | (mm) "tracked a" "\<not> tracked b"
    | (rd) "\<not> tracked a" "tracked b"
    | (none) "\<not> tracked a" "\<not> tracked b"
    by blast
  then have "consensus_row False mm rd = resolve_spec a b"
  proof cases
    case both_eq
    then show ?thesis
      unfolding consensus_row_def resolve_spec_def Let_def a_def [symmetric] b_def [symmetric]
      by (simp add: isin_RUUA tracked_series_eq tracked_series_ne map_RUUA_label)
  next
    case both_ne
    then show ?thesis
      unfolding consensus_row_def resolve_spec_def Let_def a_def [symmetric] b_def [symmetric]
      by (simp add: isin_RUUA tracked_series_eq tracked_series_ne map_RUUA_label)
  next
    case mm
    then show ?thesis
      unfolding consensus_row_def resolve_spec_def Let_def a_def [symmetric] b_def [symmetric]
      by (simp add: isin_RUUA map_RUUA_label)
  next
    case rd
    then show ?thesis
      unfolding consensus_row_def resolve_spec_def Let_def a_def [symmetric] b_def [symmetric]
      by (simp add: isin_RUUA map_RUUA_label)
  next
    case none
    then show ?thesis
      unfolding consensus_row_def resolve_spec_def Let_def a_def [symmetric] b_def [symmetric]
      by (simp add: isin_RUUA)
  qed
  then show ?thesis by (simp add: a_def b_def)
qed

lemma norm_cc_Some:
  "norm_cc (Some s) = Some (if str_upper s \<in> set NA_TOKENS then '''' else str_upper s)"
  by (simp add: norm_cc_def)

lemma norm_cc_None: "norm_cc None = None"
  by (simp add: norm_cc_def)

lemma consensus_row_strict:
  "consensus_row True mm rd = resolve_strict_spec (norm_cc mm) (norm_cc rd)"
proof (cases "tracked (norm_cc mm) \<and> tracked (norm_cc rd)")
  case True
  then show ?thesis
    unfolding consensus_row_def resolve_strict_spec_def Let_def
    by (simp add: isin_RUUA tracked_series_eq map_RUUA_label)
next
  case False
  then have "kand (Some (tracked (norm_cc mm))) (Some (tracked (norm_cc rd))) = Some False"
    by (simp add: kand_Some)
  with False show ?thesis
    unfolding consensus_row_def resolve_strict_spec_def Let_def
    by (auto simp: isin_RUUA)
qed

lemma label_of_tracked: "tracked c \<Longrightarrow> label_of c \<noteq> None"
  by (auto simp: tracked_def label_of_def)

lemma consensus_cols_nth:
  assumes "i < length rds" and "length mms = length rds"
  shows "fst (consensus_cols (Some mms) rds strict) ! i = fst (consensus_row strict (mms ! i) (rds ! i))"
    and "snd (consensus_cols (Some mms) rds strict) ! i = snd (consensus_row strict (mms ! i) (rds ! i))"
    and "fst (consensus_cols None rds strict) ! i = fst (consensus_row strict (Some '''') (rds ! i))"
    and "snd (consensus_cols None rds strict) ! i = snd (consensus_row strict (Some '''') (rds ! i))"
  using assms by (simp_all add: consensus_cols_def Let_def)

text \<open>
  C1. In non-strict mode the resolver is a function of the two normalised codes alone and
  follows the five rules in their order of precedence: both tracked and equal gives
  \<^verbatim>\<open>strict\<close> with the shared label; both tracked and different gives \<^verbatim>\<open>conflict\<close> with
  no consensus; only the dataset code tracked gives \<^verbatim>\<open>mm_only\<close> with the dataset's label;
  only the registry code tracked gives \<^verbatim>\<open>rdap_only\<close> with the registry's label; anything
  else gives \<^verbatim>\<open>no_ru_ua\<close> with no consensus. Normalisation upper-cases a present code
  and turns the blank and NA-like tokens into the empty string. The five sample pairs of
  the specification evaluate as stated there.
\<close>

theorem consensus_nonstrict_rules:
  "consensus_row False mm rd = resolve_spec (norm_cc mm) (norm_cc rd)
   \<and> norm_cc (Some s) = Some (if str_upper s \<in> set NA_TOKENS then '''' else str_upper s)
   \<and> consensus_row False (Some ''RU'') (Some ''RU'') = (Some ''Russia'', ''strict'')
   \<and> consensus_row False (Some ''RU'') (Some ''UA'') = (None, ''conflict'')
   \<and> consensus_row False (Some ''RU'') (Some '''') = (Some ''Russia'', ''mm_only'')
   \<and> consensus_row False (Some '''') (Some ''UA'') = (Some ''Ukraine'', ''rdap_only'')
   \<and> consensus_row False (Some ''FR'') (Some ''DE'') = (None, ''no_ru_ua'')"
proof -
  have e1: "consensus_row False (Some ''RU'') (Some ''RU'') = (Some ''Russia'', ''strict'')"
    by code_simp
  have e2: "consensus_row False (Some ''RU'') (Some ''UA'') = (None, ''conflict'')"
    by code_simp
  have e3: "consensus_row False (Some ''RU'') (Some '''') = (Some ''Russia'', ''mm_only'')"
    by code_simp
  have e4: "consensus_row False (Some '''') (Some ''UA'') = (Some ''Ukraine'', ''rdap_only'')"
    by code_simp
  have e5: "consensus_row False (Some ''FR'') (Some ''DE'') = (None, ''no_ru_ua'')"
    by code_simp
  show ?thesis
    using consensus_row_nonstrict [of mm rd] norm_cc_Some [of s] e1 e2 e3 e4 e5
    by blast
qed

theorem consensus_nonstrict_rules_witness:
  "consensus_row False (Some ''ua'') (Some ''n/a'') = (Some ''Ukraine'', ''mm_only'')
   \<and> norm_cc (Some ''n/a'') = Some ''''"
proof -
  have "resolve_spec (norm_cc (Some ''ua'')) (norm_cc (Some ''n/a'')) = (Some ''Ukraine'', ''mm_only'')"
    by code_simp
  moreover have "(if str_upper ''n/a'' \<in> set NA_TOKENS then '''' else str_upper ''n/a'') = ''''"
    by code_simp
  ultimately show ?thesis
    using consensus_nonstrict_rules [of "Some ''ua''" "Some ''n/a''" "''n/a''"]
    by simp
qed

text \<open>
  C5. In strict-only mode the resolver gives rule \<^verbatim>\<open>strict\<close>, with the shared tracked
  label, exactly when both normalised codes are tracked and equal; every other pair keeps
  the default rule \<^verbatim>\<open>no_ru_ua\<close> and no consensus value, also the pairs that are
  \<^verbatim>\<open>conflict\<close>, \<^verbatim>\<open>mm_only\<close> or \<^verbatim>\<open>rdap_only\<close> in non-strict mode.
\<close>

theorem consensus_strict_only_rules:
  "consensus_row True mm rd =
     (if tracked (norm_cc mm) \<and> tracked (norm_cc rd) \<and> norm_cc mm = norm_cc rd
      then (label_of (norm_cc mm), ''strict'') else (None, ''no_ru_ua''))
   \<and> (snd (consensus_row True mm rd) = ''strict''
        \<longleftrightarrow> tracked (norm_cc mm) \<and> tracked (norm_cc rd) \<and> norm_cc mm = norm_cc rd)
   \<and> (snd (consensus_row True mm rd) = ''strict''
        \<longleftrightarrow> fst (consensus_row True mm rd) \<noteq> None)
   \<and> consensus_row True (Some ''RU'') (Some ''UA'') = (None, ''no_ru_ua'')
   \<and> consensus_row True (Some ''RU'') (Some '''') = (None, ''no_ru_ua'')
   \<and> consensus_row True (Some '''') (Some ''UA'') = (None, ''no_ru_ua'')"
proof -
  have e1: "consensus_row True (Some ''RU'') (Some ''UA'') = (None, ''no_ru_ua'')"
    by code_simp
  have e2: "consensus_row True (Some ''RU'') (Some '''') = (None, ''no_ru_ua'')"
    by code_simp
  have e3: "consensus_row True (Some '''') (Some ''UA'') = (None, ''no_ru_ua'')"
    by code_simp
  have main: "consensus_row True mm rd =
     (if tracked (norm_cc mm) \<and> tracked (norm_cc rd) \<and> norm_cc mm = norm_cc rd
      then (label_of (norm_cc mm), ''strict'') else (None, ''no_ru_ua''))"
    by (simp add: consensus_row_strict resolve_strict_spec_def)
  have iff1: "snd (consensus_row True mm rd) = ''strict''
        \<longleftrightarrow> tracked (norm_cc mm) \<and> tracked (norm_cc rd) \<and> norm_cc mm = norm_cc rd"
    by (simp add: main)
  have iff2: "snd (consensus_row True mm rd) = ''strict''
        \<longleftrightarrow> fst (consensus_row True mm rd) \<noteq> None"
    using label_of_tracked [of "norm_cc mm"] by (auto simp: main)
  show ?thesis
    using main iff1 iff2 e1 e2 e3 by blast
qed

theorem consensus_strict_only_rules_witness:
  "consensus_row True (Some ''ua'') (Some ''Ua'') = (Some ''Ukraine'', ''strict'')
   \<and> consensus_row True (Some ''ua'') None = (None, ''no_ru_ua'')"
proof -
  have a: "(if tracked (norm_cc (Some ''ua'')) \<and> tracked (norm_cc (Some ''Ua''))
              \<and> norm_cc (Some ''ua'') = norm_cc (Some ''Ua'')
            then (label_of (norm_cc (Some ''ua'')), ''strict'') else (None, ''no_ru_ua''))
           = (Some ''Ukraine'', ''strict'')"
    by code_simp
  have b: "(if tracked (norm_cc (Some ''ua'')) \<and> tracked (norm_cc None)
              \<and> norm_cc (Some ''ua'') = norm_cc None
            then (label_of (norm_cc (Some ''ua'')), ''strict'') else (None, ''no_ru_ua''))
           = (None, ''no_ru_ua'')"
    by code_simp
  show ?thesis
    using consensus_strict_only_rules [of "Some ''ua''" "Some ''Ua''"]
      consensus_strict_only_rules [of "Some ''ua''" None] a b
    by simp
qed

subsection \<open>Cache store\<close>

lemma valid_records_Cons:
  "valid_records jl ps (l # ls) =
     (case try_record jl ps l of None \<Rightarrow> valid_records jl ps ls | Some r \<Rightarrow> r # valid_records jl ps ls)"
  by (simp add: valid_records_def List.map_filter_simps split: option.splits)

lemma load_lines_eq:
  "load_lines jl ps d ls = d ++ map_of (rev (valid_records jl ps ls))"
proof (induction ls arbitrary: d)
  case Nil
  then show ?case by (simp add: valid_records_def List.map_filter_simps)
next
  case (Cons l ls)
  show ?case
  proof (cases "try_record jl ps l")
    case None
    then show ?thesis using Cons.IH [of d] by (simp add: valid_records_Cons)
  next
    case (Some r)
    obtain k v where r: "r = (k, v)" by (cases r)
    have "d(k \<mapsto> v) ++ map_of (rev (valid_records jl ps ls))
          = d ++ map_of (rev (valid_records jl ps ls) @ [(k, v)])"
      by (rule ext) (simp add: map_add_def split: option.splits)
    moreover have "load_lines jl ps d (l # ls) = load_lines jl ps (d(k \<mapsto> v)) ls"
      using Some r by simp
    moreover have "valid_records jl ps (l # ls) = (k, v) # valid_records jl ps ls"
      using Some r by (simp add: valid_records_Cons)
    ultimately show ?thesis
      by (simp only: Cons.IH [of "d(k \<mapsto> v)"] rev.simps)
  qed
qed

lemma last_record_iff:
  "last_record rs k = Some v \<longleftrightarrow> (\<exists>pre post. rs = pre @ (k, v) # post \<and> k \<notin> fst ` set post)"
proof (induction rs rule: rev_induct)
  case Nil
  then show ?case by (simp add: last_record_def)
next
  case (snoc x rs)
  obtain k' v' where x: "x = (k', v')" by (cases x)
  show ?case
  proof (cases "k' = k")
    case True
    have "(\<exists>pre post. rs @ [(k, v')] = pre @ (k, v) # post \<and> k \<notin> fst ` set post) \<longleftrightarrow> v' = v"
    proof
      assume "\<exists>pre post. rs @ [(k, v')] = pre @ (k, v) # post \<and> k \<notin> fst ` set post"
      then obtain pre post where e: "rs @ [(k, v')] = pre @ (k, v) # post" and n: "k \<notin> fst ` set post"
        by blast
      show "v' = v"
      proof (cases post rule: rev_cases)
        case Nil
        with e show ?thesis by simp
      next
        case (snoc ys y)
        with e have "y = (k, v')" by simp
        with snoc n show ?thesis by simp
      qed
    next
      assume "v' = v"
      then have "rs @ [(k, v')] = rs @ (k, v) # [] \<and> k \<notin> fst ` set []" by simp
      then show "\<exists>pre post. rs @ [(k, v')] = pre @ (k, v) # post \<and> k \<notin> fst ` set post" by blast
    qed
    with True x show ?thesis by (simp add: last_record_def)
  next
    case False
    have "(\<exists>pre post. rs @ [(k', v')] = pre @ (k, v) # post \<and> k \<notin> fst ` set post)
          \<longleftrightarrow> (\<exists>pre post. rs = pre @ (k, v) # post \<and> k \<notin> fst ` set post)"
    proof
      assume "\<exists>pre post. rs @ [(k', v')] = pre @ (k, v) # post \<and> k \<notin> fst ` set post"
      then obtain pre post where e: "rs @ [(k', v')] = pre @ (k, v) # post" and n: "k \<notin> fst ` set post"
        by blast
      show "\<exists>pre post. rs = pre @ (k, v) # post \<and> k \<notin> fst ` set post"
      proof (cases post rule: rev_cases)
        case Nil
        with e False show ?thesis by simp
      next
        case (snoc ys y)
        with e have "rs = pre @ (k, v) # ys" by simp
        moreover from snoc n have "k \<notin> fst ` set ys" by simp
        ultimately show ?thesis by blast
      qed
    next
      assume "\<exists>pre post. rs = pre @ (k, v) # post \<and> k \<notin> fst ` set post"
      then obtain pre post where e: "rs = pre @ (k, v) # post" and n: "k \<notin> fst ` set post"
        by blast
      then have "rs @ [(k', v')] = pre @ (k, v) # (post @ [(k', v')]) \<and> k \<notin> fst ` set (post @ [(k', v')])"
        using False by simp
      then show "\<exists>pre post. rs @ [(k', v')] = pre @ (k, v) # post \<and> k \<notin> fst ` set post" by blast
    qed
    with False x snoc.IH show ?thesis by (simp add: last_record_def)
  qed
qed

lemma dom_last_record: "dom (last_record rs) = fst ` set rs"
proof -
  have "last_record rs = map_of (rev rs)"
    by (rule ext) (simp add: last_record_def)
  then show ?thesis by (simp add: dom_map_of_conv_image_fst)
qed

lemma valid_records_skip:
  "try_record jl ps l = None \<Longrightarrow>
   valid_records jl ps (xs @ l # ys) = valid_records jl ps (xs @ ys)"
  by (simp add: valid_records_def List.map_filter_def)

lemma try_record_None_iff:
  "try_record jl ps l = None \<longleftrightarrow>
     (case jl l of None \<Rightarrow> True
      | Some ob \<Rightarrow> getitem ob ''ip'' = None \<or> getitem ob ''data'' = None)"
  by (auto simp: try_record_def split: option.splits)

text \<open>
  C7. Loading the log folds over its lines in file order. A line that does not parse or
  lacks one of the keys \<^verbatim>\<open>ip\<close> and \<^verbatim>\<open>data\<close> is skipped: removing it from the log
  does not change the result. For every key the loaded map holds the data of the last
  valid record bearing that key, and its keys are exactly the keys of the valid records.
  A missing file loads to the empty map.
\<close>

theorem load_cache_last_write_wins:
  "load_cache jl ps (Some ls) k = last_record (valid_records jl ps ls) k
   \<and> (load_cache jl ps (Some ls) k = Some v \<longleftrightarrow>
        (\<exists>pre post. valid_records jl ps ls = pre @ (k, v) # post \<and> k \<notin> fst ` set post))
   \<and> dom (load_cache jl ps (Some ls)) = fst ` set (valid_records jl ps ls)
   \<and> (try_record jl ps l = None \<longleftrightarrow>
        (case jl l of None \<Rightarrow> True
         | Some ob \<Rightarrow> getitem ob ''ip'' = None \<or> getitem ob ''data'' = None))
   \<and> (try_record jl ps l = None \<longrightarrow>
        load_cache jl ps (Some (xs @ l # ys)) = load_cache jl ps (Some (xs @ ys)))
   \<and> load_cache jl ps None = Map.empty"
proof -
  have eq: "load_cache jl ps (Some zs) = last_record (valid_records jl ps zs)" for zs
    by (rule ext) (simp add: load_cache_def load_lines_eq last_record_def)
  have skip: "try_record jl ps l = None \<longrightarrow>
        load_cache jl ps (Some (xs @ l # ys)) = load_cache jl ps (Some (xs @ ys))"
    by (simp add: eq valid_records_skip)
  have none: "load_cache jl ps None = Map.empty"
    by (simp add: load_cache_def)
  show ?thesis
    using eq [of ls] last_record_iff [of "valid_records jl ps ls" k v]
      dom_last_record [of "valid_records jl ps ls"] try_record_None_iff [of jl ps l] skip none
    by simp
qed

theorem load_cache_last_write_wins_witness:
  "load_cache (\<lambda>l. l) (\<lambda>j. case j of JStr s \<Rightarrow> s | _ \<Rightarrow> ''?'')
     (Some [Some (JObj [(''ip'', JStr ''10.0.0.1''), (''data'', JObj [(''ok'', JBool True)])]),
            None,
            Some (JObj [(''ip'', JStr ''10.0.0.1''), (''data'', JObj [(''ok'', JBool False)])]),
            Some (JObj [(''ip'', JStr ''10.0.0.1'')])])
     ''10.0.0.1''
   = Some (JObj [(''ok'', JBool False)])"
proof -
  let ?jl = "\<lambda>l :: json option. l"
  let ?ps = "\<lambda>j. case j of JStr s \<Rightarrow> s | _ \<Rightarrow> ''?''"
  let ?ls = "[Some (JObj [(''ip'', JStr ''10.0.0.1''), (''data'', JObj [(''ok'', JBool True)])]),
            None,
            Some (JObj [(''ip'', JStr ''10.0.0.1''), (''data'', JObj [(''ok'', JBool False)])]),
            Some (JObj [(''ip'', JStr ''10.0.0.1'')])]"
  have v: "valid_records ?jl ?ps ?ls
           = [(''10.0.0.1'', JObj [(''ok'', JBool True)])] @ (''10.0.0.1'', JObj [(''ok'', JBool False)]) # []"
    by (simp add: valid_records_def List.map_filter_def try_record_def getitem_def)
  have "\<exists>pre post. valid_records ?jl ?ps ?ls = pre @ (''10.0.0.1'', JObj [(''ok'', JBool False)]) # post
          \<and> ''10.0.0.1'' \<notin> fst ` set post"
    unfolding v by (intro exI [of _ "[(''10.0.0.1'', JObj [(''ok'', JBool True)])]"] exI [of _ "[]"]) simp
  then show ?thesis
    using load_cache_last_write_wins [of ?jl ?ps ?ls "''10.0.0.1''" "JObj [(''ok'', JBool False)]"]
    by blast
qed

subsection \<open>Sharding\<close>

lemma enumerate_as_map: "enumerate 0 xs = map (\<lambda>j. (j, xs ! j)) [0..<length xs]"
  by (rule nth_equalityI) (simp_all add: nth_enumerate_eq)

lemma my_jobs_positions:
  "my_jobs N idx fs = map (\<lambda>j. fs ! j) (filter (\<lambda>j. int j mod max 1 N = idx) [0..<length fs])"
  by (simp add: my_jobs_def enumerate_as_map filter_map comp_def)

lemma sum_list_delta_mset:
  "distinct is \<Longrightarrow> a \<in> set is \<Longrightarrow> (\<Sum>i\<leftarrow>is. if a = i then {#x#} else {#}) = {#x#}"
proof (induction "is")
  case Nil
  then show ?case by simp
next
  case (Cons i "is")
  show ?case
  proof (cases "a = i")
    case True
    with Cons.prems have "a \<notin> set is" by simp
    then have "(\<Sum>i\<leftarrow>is. if a = i then {#x#} else {#}) = {#}"
      by (induction "is") auto
    with True show ?thesis by simp
  next
    case False
    with Cons show ?thesis by simp
  qed
qed

lemma sum_list_filter_partition:
  "distinct is \<Longrightarrow> (\<forall>x\<in>#M. g x \<in> set is) \<Longrightarrow>
   (\<Sum>i\<leftarrow>is. filter_mset (\<lambda>j. g j = i) M) = M"
proof (induction M)
  case empty
  then show ?case by (induction "is") auto
next
  case (add x M)
  have "(\<Sum>i\<leftarrow>is. filter_mset (\<lambda>j. g j = i) (add_mset x M))
        = (\<Sum>i\<leftarrow>is. (if g x = i then {#x#} else {#}) + filter_mset (\<lambda>j. g j = i) M)"
    by (rule arg_cong [where f = sum_list]) (rule map_cong, auto)
  also have "\<dots> = (\<Sum>i\<leftarrow>is. if g x = i then {#x#} else {#}) + (\<Sum>i\<leftarrow>is. filter_mset (\<lambda>j. g j = i) M)"
    by (simp add: sum_list_addf)
  also have "\<dots> = {#x#} + M"
    using add by (simp add: sum_list_delta_mset)
  finally show ?case by simp
qed

lemma image_mset_sum_list:
  "image_mset f (sum_list Ms) = sum_list (map (image_mset f) Ms)"
  by (induction Ms) auto

lemma image_filter_partition:
  assumes "distinct is" and "\<forall>x\<in>#M. g x \<in> set is"
  shows "(\<Sum>i\<leftarrow>is. image_mset f (filter_mset (\<lambda>j. g j = i) M)) = image_mset f M"
proof -
  have "(\<Sum>i\<leftarrow>is. image_mset f (filter_mset (\<lambda>j. g j = i) M))
        = image_mset f (\<Sum>i\<leftarrow>is. filter_mset (\<lambda>j. g j = i) M)"
    by (simp add: image_mset_sum_list comp_def)
  then show ?thesis
    using sum_list_filter_partition [OF assms] by simp
qed

lemma mset_my_jobs:
  "mset (my_jobs N idx fs)
   = image_mset (\<lambda>j. fs ! j) (filter_mset (\<lambda>j. int j mod max 1 N = idx) (mset [0..<length fs]))"
  unfolding my_jobs_positions by (simp only: mset_map mset_filter)

lemma my_jobs_exhaustive:
  assumes "1 \<le> N"
  shows "(\<Sum>i\<leftarrow>[0..N - 1]. mset (my_jobs N i fs)) = mset fs"
proof -
  have d: "distinct [0..N - 1]" by simp
  have r: "\<forall>j\<in>#mset [0..<length fs]. int j mod max 1 N \<in> set [0..N - 1]"
    using assms by (auto simp: max_def)
  have "(\<Sum>i\<leftarrow>[0..N - 1]. mset (my_jobs N i fs)) = image_mset (\<lambda>j. fs ! j) (mset [0..<length fs])"
    unfolding mset_my_jobs by (rule image_filter_partition [OF d r])
  also have "\<dots> = mset (map (\<lambda>j. fs ! j) [0..<length fs])"
    by (simp only: mset_map)
  also have "\<dots> = mset fs"
    by (simp only: map_nth)
  finally show ?thesis .
qed

lemma my_jobs_disjoint:
  assumes "distinct fs" and "i \<noteq> j"
  shows "set (my_jobs N i fs) \<inter> set (my_jobs N j fs) = {}"
proof -
  have "\<And>a b. a < length fs \<Longrightarrow> b < length fs \<Longrightarrow> fs ! a = fs ! b \<Longrightarrow> a = b"
    using assms(1) by (simp add: nth_eq_iff_index_eq)
  with assms(2) show ?thesis
    by (auto simp: my_jobs_positions)
qed

lemma my_jobs_member:
  "p \<in> set (my_jobs N idx fs) \<longleftrightarrow> (\<exists>j < length fs. fs ! j = p \<and> int j mod max 1 N = idx)"
  by (auto simp: my_jobs_positions)

lemma my_jobs_union:
  assumes "1 \<le> N"
  shows "(\<Union>i\<in>{0..N - 1}. set (my_jobs N i fs)) = set fs"
proof
  show "(\<Union>i\<in>{0..N - 1}. set (my_jobs N i fs)) \<subseteq> set fs"
    by (auto simp: my_jobs_member)
  show "set fs \<subseteq> (\<Union>i\<in>{0..N - 1}. set (my_jobs N i fs))"
  proof
    fix p assume "p \<in> set fs"
    then obtain j where j: "j < length fs" "fs ! j = p"
      by (auto simp: in_set_conv_nth)
    have "int j mod max 1 N \<in> {0..N - 1}"
      using assms by (auto simp: max_def)
    moreover have "p \<in> set (my_jobs N (int j mod max 1 N) fs)"
      using j by (auto simp: my_jobs_member)
    ultimately show "p \<in> (\<Union>i\<in>{0..N - 1}. set (my_jobs N i fs))"
      by blast
  qed
qed

text \<open>
  C6. For a shard total \<open>N \<ge> 1\<close> and any list of files, shard \<open>i\<close> keeps exactly the files
  at the positions \<open>j\<close> with \<open>j mod N = i\<close>, in their order. Every position goes to exactly
  one of the shards \<open>0, \<dots>, N - 1\<close>: the assignments of these shards together hold every
  file as often as the file list does, their union is the set of all files, and when the
  files are distinct (as the paths of a directory listing are) the assignments of two
  different indices are disjoint and no file occurs twice.
\<close>

theorem shard_assignment_partition:
  assumes "1 \<le> N"
  shows "my_jobs N i fs = map (\<lambda>j. fs ! j) (filter (\<lambda>j. int j mod N = i) [0..<length fs])
    \<and> mset (concat (map (\<lambda>i. my_jobs N i fs) [0..N - 1])) = mset fs
    \<and> (\<Union>i\<in>{0..N - 1}. set (my_jobs N i fs)) = set fs
    \<and> (distinct fs \<and> i \<noteq> j \<longrightarrow> set (my_jobs N i fs) \<inter> set (my_jobs N j fs) = {})
    \<and> (distinct fs \<longrightarrow> distinct (concat (map (\<lambda>i. my_jobs N i fs) [0..N - 1])))"
proof -
  have m: "max 1 N = N" using assms by simp
  have a: "my_jobs N i fs = map (\<lambda>j. fs ! j) (filter (\<lambda>j. int j mod N = i) [0..<length fs])"
    using my_jobs_positions [of N i fs] by (simp only: m)
  have b: "mset (concat (map (\<lambda>i. my_jobs N i fs) [0..N - 1])) = mset fs"
    using my_jobs_exhaustive [OF assms, of fs] by (simp add: mset_concat comp_def)
  have c: "(\<Union>i\<in>{0..N - 1}. set (my_jobs N i fs)) = set fs"
    by (rule my_jobs_union [OF assms])
  have d: "distinct fs \<and> i \<noteq> j \<longrightarrow> set (my_jobs N i fs) \<inter> set (my_jobs N j fs) = {}"
    using my_jobs_disjoint [of fs i j N] by blast
  have e: "distinct fs \<longrightarrow> distinct (concat (map (\<lambda>i. my_jobs N i fs) [0..N - 1]))"
    using b mset_eq_imp_distinct_iff by blast
  show ?thesis using a b c d e by blast
qed

theorem shard_assignment_partition_witness:
  "my_jobs 4 1 [''a'', ''b'', ''c'', ''d'', ''e'', ''f''] = [''b'', ''f'']
   \<and> set (my_jobs 4 1 [''a'', ''b'', ''c'', ''d'', ''e'', ''f''])
       \<inter> set (my_jobs 4 0 [''a'', ''b'', ''c'', ''d'', ''e'', ''f'']) = {}
   \<and> mset (concat (map (\<lambda>i. my_jobs 4 i [''a'', ''b'', ''c'', ''d'', ''e'', ''f'']) [0..3]))
       = mset [''a'', ''b'', ''c'', ''d'', ''e'', ''f'']"
proof -
  let ?fs = "[''a'', ''b'', ''c'', ''d'', ''e'', ''f'']"
  have h: "(1::int) \<le> 4" by simp
  have d: "distinct ?fs \<and> (1::int) \<noteq> 0" by simp
  have p: "map (\<lambda>j. ?fs ! j) (filter (\<lambda>j. int j mod 4 = 1) [0..<length ?fs]) = [''b'', ''f'']"
    by code_simp
  have u: "[0..(4::int) - 1] = [0..3]" by simp
  note t = shard_assignment_partition [OF h, of 1 ?fs 0, unfolded u]
  from t have a: "my_jobs 4 1 ?fs = map (\<lambda>j. ?fs ! j) (filter (\<lambda>j. int j mod 4 = 1) [0..<length ?fs])"
    by blast
  from t have b: "mset (concat (map (\<lambda>i. my_jobs 4 i ?fs) [0..3])) = mset ?fs"
    by blast
  from t d have e: "set (my_jobs 4 1 ?fs) \<inter> set (my_jobs 4 0 ?fs) = {}"
    by blast
  from a p have a': "my_jobs 4 1 ?fs = [''b'', ''f'']"
    by (rule trans)
  show ?thesis using a' e b by blast
qed

subsection \<open>Selection policy\<close>

lemma decide_no_entry:
  "cached cache ip = None \<Longrightarrow> decide rb re (cache ip) = Inr Candidate"
  by (auto simp: cached_def decide_def split: option.splits if_splits)

lemma cc_chain:
  assumes "well_formed (JObj kvs)"
  shows "\<exists>v st. py_get (JObj kvs) ''rdap_net_cc'' = Inr v
           \<and> py_strip (py_or v (JStr [])) = Inr st
           \<and> py_upper st = Inr (JStr (entry_cc (JObj kvs)))"
proof (cases "map_of kvs ''rdap_net_cc''")
  case None
  then show ?thesis
    by (simp add: py_get_def py_or_def py_strip_def py_upper_def entry_cc_def
        getitem_def str_strip_def str_upper_def)
next
  case (Some v)
  show ?thesis
  proof (cases v)
    case (JStr s)
    with Some show ?thesis
      by (simp add: py_get_def py_or_def py_strip_def py_upper_def entry_cc_def
          getitem_def str_strip_def str_upper_def)
  qed (use Some assms in \<open>simp_all add: py_get_def py_or_def py_strip_def py_upper_def
          entry_cc_def getitem_def str_strip_def str_upper_def well_formed_def\<close>)
qed

lemma decide_entry:
  assumes "cached cache ip = Some c" and "well_formed c"
  shows "decide rb re (cache ip)
         = Inr (if scheduled_spec (rb \<noteq> 0) (re \<noteq> 0) (Some c) then Candidate else Skip)"
proof -
  from assms(2) obtain kvs where c: "c = JObj kvs"
    by (cases c) (simp_all add: well_formed_def)
  from assms(1) have e: "cache ip = Some c" and t: "truthy c"
    by (auto simp: cached_def split: option.splits if_splits)
  have ok: "py_get c ''ok'' = Inr (case map_of kvs ''ok'' of Some v \<Rightarrow> v | None \<Rightarrow> JNull)"
    by (simp add: c py_get_def)
  have eo: "entry_ok c = truthy (case map_of kvs ''ok'' of Some v \<Rightarrow> v | None \<Rightarrow> JNull)"
    by (simp add: c entry_ok_def getitem_def split: option.splits)
  from cc_chain [of kvs] assms(2) obtain v st where
    g: "py_get c ''rdap_net_cc'' = Inr v" and
    s: "py_strip (py_or v (JStr [])) = Inr st" and
    u: "py_upper st = Inr (JStr (entry_cc c))"
    unfolding c by blast
  show ?thesis
    unfolding decide_def e option.case Let_def bind_exn_def ok g s u sum.case scheduled_spec_def eo
    using t by auto
qed

lemma select_loop_spec:
  assumes "well_formed_cache cache ips"
  shows "select_loop B rb re cache ips tq used
         = Inr (tq @ (if B = 0 then filter (\<lambda>ip. scheduled_spec (rb \<noteq> 0) (re \<noteq> 0) (cached cache ip)) ips
                      else take (nat B - used) (filter (\<lambda>ip. scheduled_spec (rb \<noteq> 0) (re \<noteq> 0) (cached cache ip)) ips)))"
  using assms
proof (induction ips arbitrary: tq used)
  case Nil
  then show ?case by simp
next
  case (Cons ip ips)
  from Cons.prems have wf: "well_formed_cache cache ips"
    by (simp add: well_formed_cache_def)
  let ?P = "\<lambda>ip. scheduled_spec (rb \<noteq> 0) (re \<noteq> 0) (cached cache ip)"
  have d: "decide rb re (cache ip) = Inr (if ?P ip then Candidate else Skip)"
  proof (cases "cached cache ip")
    case None
    then show ?thesis by (simp add: decide_no_entry scheduled_spec_def)
  next
    case (Some c)
    with Cons.prems have "well_formed c" by (simp add: well_formed_cache_def)
    with Some show ?thesis by (simp add: decide_entry)
  qed
  show ?case
  proof (cases "?P ip")
    case False
    then show ?thesis using d Cons.IH [OF wf, of tq used] by simp
  next
    case True
    show ?thesis
    proof (cases "B \<noteq> 0 \<and> int used \<ge> B")
      case brk: True
      then have "nat B - used = 0" by (simp add: nat_le_iff)
      with brk True d show ?thesis by simp
    next
      case False
      then have "B = 0 \<or> (B \<noteq> 0 \<and> Suc (nat B - Suc used) = nat B - used)" by auto
      then show ?thesis using False True d Cons.IH [OF wf, of "tq @ [ip]" "Suc used"]
        by (auto simp: take_Cons')
    qed
  qed
qed

lemma to_query_spec:
  assumes "well_formed_cache cache ips"
  shows "to_query B rb re cache ips
         = Inr (within_budget B (filter (\<lambda>ip. scheduled_spec (rb \<noteq> 0) (re \<noteq> 0) (cached cache ip)) ips))"
  unfolding to_query_def within_budget_def select_loop_spec [OF assms] by simp

lemma entry_ok_truthy: "entry_ok c \<Longrightarrow> truthy c"
  by (cases c) (auto simp: entry_ok_def getitem_def)

lemma three_ip_scenario:
  assumes "distinct [a, b, c]"
    and "cache a = Some ea" "well_formed ea" "entry_ok ea" "entry_cc ea \<noteq> []"
    and "cache b = None"
    and "cache c = Some ec" "well_formed ec" "\<not> entry_ok ec"
    and "rb \<noteq> 0"
  shows "to_query 0 rb re cache [a, b, c] = Inr [b, c]"
proof -
  have ca: "cached cache a = Some ea"
    using assms by (simp add: cached_def entry_ok_truthy)
  have cb: "cached cache b = None"
    using assms by (simp add: cached_def)
  have cc: "cached cache c = None \<or> cached cache c = Some ec"
    using assms by (simp add: cached_def)
  have wf: "well_formed_cache cache [a, b, c]"
    using assms ca cb cc by (auto simp: well_formed_cache_def)
  have "\<not> scheduled_spec (rb \<noteq> 0) (re \<noteq> 0) (cached cache a)"
    using assms ca by (simp add: scheduled_spec_def)
  moreover have "scheduled_spec (rb \<noteq> 0) (re \<noteq> 0) (cached cache b)"
    using cb by (simp add: scheduled_spec_def)
  moreover have "scheduled_spec (rb \<noteq> 0) (re \<noteq> 0) (cached cache c)"
    using assms cc by (auto simp: scheduled_spec_def)
  ultimately show ?thesis
    by (simp add: to_query_spec [OF wf] within_budget_def)
qed

text \<open>
  C2. On a cache whose entries are well formed, the IPs scheduled for a fresh lookup are,
  in order, the candidates that the policy schedules, cut off at the per-file budget when
  one is set (a budget of 0 is none). The policy: an IP with no cached entry is scheduled;
  an IP with a cached entry whose \<^verbatim>\<open>ok\<close> is true is skipped, unless the
  retry-empty-country-code option is set and the cached code is empty (so with a non-empty
  code it is always skipped); an IP with a cached entry whose \<^verbatim>\<open>ok\<close> is false is skipped
  unless the retry-failed option is set. With a budget, at most that many IPs are
  admitted. In the three-IP scenario (A cached ok with a non-empty code, B not cached, C
  cached with \<^verbatim>\<open>ok\<close> false, retry-failed set, no budget) exactly B and C are scheduled.
  The cached code is the stored one stripped of white space and upper-cased, so a stored
  code of nothing but white space, a no-break space included, is empty.
\<close>

theorem selection_policy:
  "(well_formed_cache cache ips \<longrightarrow>
      to_query B rb re cache ips
        = Inr (within_budget B
                 (filter (\<lambda>ip. scheduled_spec (rb \<noteq> 0) (re \<noteq> 0) (cached cache ip)) ips)))
   \<and> scheduled_spec rf rec None
   \<and> (entry_ok e \<and> entry_cc e \<noteq> [] \<longrightarrow> \<not> scheduled_spec rf rec (Some e))
   \<and> (entry_ok e \<longrightarrow> (scheduled_spec rf rec (Some e) \<longleftrightarrow> rec \<and> entry_cc e = []))
   \<and> (\<not> entry_ok e \<longrightarrow> (scheduled_spec rf rec (Some e) \<longleftrightarrow> rf))
   \<and> (B \<noteq> 0 \<longrightarrow> length (within_budget B xs) \<le> nat B)
   \<and> within_budget 0 xs = xs
   \<and> (distinct [a, b, c]
        \<and> cache a = Some ea \<and> well_formed ea \<and> entry_ok ea \<and> entry_cc ea \<noteq> []
        \<and> cache b = None
        \<and> cache c = Some ec \<and> well_formed ec \<and> \<not> entry_ok ec
        \<and> rb \<noteq> 0
      \<longrightarrow> to_query 0 rb re cache [a, b, c] = Inr [b, c])"
proof -
  have p1: "well_formed_cache cache ips \<longrightarrow>
      to_query B rb re cache ips
        = Inr (within_budget B
                 (filter (\<lambda>ip. scheduled_spec (rb \<noteq> 0) (re \<noteq> 0) (cached cache ip)) ips))"
    using to_query_spec [of cache ips B rb re] by blast
  have p2: "scheduled_spec rf rec None"
    by (simp add: scheduled_spec_def)
  have p3: "entry_ok e \<and> entry_cc e \<noteq> [] \<longrightarrow> \<not> scheduled_spec rf rec (Some e)"
    by (simp add: scheduled_spec_def)
  have p4: "entry_ok e \<longrightarrow> (scheduled_spec rf rec (Some e) \<longleftrightarrow> rec \<and> entry_cc e = [])"
    by (simp add: scheduled_spec_def)
  have p5: "\<not> entry_ok e \<longrightarrow> (scheduled_spec rf rec (Some e) \<longleftrightarrow> rf)"
    by (simp add: scheduled_spec_def)
  have p6: "B \<noteq> 0 \<longrightarrow> length (within_budget B xs) \<le> nat B"
    by (simp add: within_budget_def)
  have p7: "within_budget 0 xs = xs"
    by (simp add: within_budget_def)
  have p8: "distinct [a, b, c]
        \<and> cache a = Some ea \<and> well_formed ea \<and> entry_ok ea \<and> entry_cc ea \<noteq> []
        \<and> cache b = None
        \<and> cache c = Some ec \<and> well_formed ec \<and> \<not> entry_ok ec
        \<and> rb \<noteq> 0
      \<longrightarrow> to_query 0 rb re cache [a, b, c] = Inr [b, c]"
    using three_ip_scenario [of a b c cache ea ec rb re] by blast
  show ?thesis
    using p1 p2 p3 p4 p5 p6 p7 p8 by blast
qed

theorem selection_policy_witness:
  "to_query 0 1 1
     [''A'' \<mapsto> JObj [(''ok'', JBool True), (''rdap_net_cc'', JStr ''RU'')],
      ''C'' \<mapsto> JObj [(''ok'', JBool False), (''error'', JStr ''timeout'')]]
     [''A'', ''B'', ''C'']
   = Inr [''B'', ''C'']
   \<and> to_query 1 1 1
     [''A'' \<mapsto> JObj [(''ok'', JBool True), (''rdap_net_cc'', JStr ''RU'')],
      ''C'' \<mapsto> JObj [(''ok'', JBool False), (''error'', JStr ''timeout'')]]
     [''A'', ''B'', ''C'']
   = Inr [''B'']
   \<and> to_query 0 0 1
     [''A'' \<mapsto> JObj [(''ok'', JBool True), (''rdap_net_cc'', JStr [CHR 0x20, CHR 0xA0])]]
     [''A'']
   = Inr [''A'']"
proof -
  let ?ea = "JObj [(''ok'', JBool True), (''rdap_net_cc'', JStr ''RU'')]"
  let ?ec = "JObj [(''ok'', JBool False), (''error'', JStr ''timeout'')]"
  let ?cache = "[''A'' \<mapsto> ?ea, ''C'' \<mapsto> ?ec]"
  let ?ips = "[''A'', ''B'', ''C'']"
  have wf: "well_formed_cache ?cache ?ips"
    by (simp add: well_formed_cache_def cached_def well_formed_def)
  have f: "filter (\<lambda>ip. scheduled_spec ((1::int) \<noteq> 0) ((1::int) \<noteq> 0) (cached ?cache ip)) ?ips
           = [''B'', ''C'']"
    by (simp add: scheduled_spec_def cached_def entry_ok_def entry_cc_def getitem_def
        str_strip_def str_upper_def is_space_def upper_char_def)
  have b0: "within_budget (0::int) [''B'', ''C''] = [''B'', ''C'']"
    by (simp add: within_budget_def)
  have b1: "within_budget (1::int) [''B'', ''C''] = [''B'']"
    by (simp add: within_budget_def)
  from selection_policy [of ?cache ?ips 0 1 1] wf
  have "to_query 0 1 1 ?cache ?ips = Inr (within_budget 0 [''B'', ''C''])"
    unfolding f by blast
  moreover from selection_policy [of ?cache ?ips 1 1 1] wf
  have "to_query 1 1 1 ?cache ?ips = Inr (within_budget 1 [''B'', ''C''])"
    unfolding f by blast
  ultimately have r12: "to_query 0 1 1 ?cache ?ips = Inr [''B'', ''C'']
      \<and> to_query 1 1 1 ?cache ?ips = Inr [''B'']"
    unfolding b0 b1 by blast
  let ?en = "JObj [(''ok'', JBool True), (''rdap_net_cc'', JStr [CHR 0x20, CHR 0xA0])]"
  let ?cache' = "[''A'' \<mapsto> ?en]"
  have wf': "well_formed_cache ?cache' [''A'']"
    by (simp add: well_formed_cache_def cached_def well_formed_def)
  have f': "filter (\<lambda>ip. scheduled_spec ((0::int) \<noteq> 0) ((1::int) \<noteq> 0) (cached ?cache' ip)) [''A'']
           = [''A'']"
    by (simp add: scheduled_spec_def cached_def entry_ok_def entry_cc_def getitem_def
        str_strip_def str_upper_def is_space_def upper_char_def)
  have b2: "within_budget (0::int) [''A''] = [''A'']"
    by (simp add: within_budget_def)
  from selection_policy [of ?cache' "[''A'']" 0 0 1] wf'
  have r3: "to_query 0 0 1 ?cache' [''A''] = Inr [''A'']"
    unfolding f' b2 by blast
  show ?thesis
    by (intro conjI conjunct1 [OF r12] conjunct2 [OF r12] r3)
qed

subsection \<open>Merged output\<close>

lemma rd_row_no_entry:
  "cached cache ip = None \<Longrightarrow> rd_row cache ip = Inr null_fields"
  by (auto simp: cached_def rd_row_def py_or_def split: option.splits if_splits)

lemma rd_row_entry:
  assumes "cached cache ip = Some c" and "rd_row cache ip = Inr f"
  shows "rdap_ok f = Some (entry_ok c)"
proof -
  from assms(1) have e: "cache ip = Some c" and t: "truthy c"
    by (auto simp: cached_def split: option.splits if_splits)
  show ?thesis
  proof (cases c)
    case (JObj kvs)
    with assms(2) e t show ?thesis
      by (auto simp: rd_row_def py_or_def py_get_def bind_exn_def entry_ok_def getitem_def
          split: option.splits)
  qed (use assms(2) e t in \<open>simp_all add: rd_row_def py_or_def py_get_def bind_exn_def\<close>)
qed

lemma rd_row_well_formed:
  assumes "cached cache ip = Some c" and "well_formed c"
  shows "\<exists>f. rd_row cache ip = Inr f"
proof -
  from assms(1) have e: "cache ip = Some c" and t: "truthy c"
    by (auto simp: cached_def split: option.splits if_splits)
  from assms(2) obtain kvs where "c = JObj kvs"
    by (cases c) (simp_all add: well_formed_def)
  with e t show ?thesis
    by (simp add: rd_row_def py_or_def py_get_def bind_exn_def)
qed

lemma build_rows_Inr:
  "build_rows cache ips = Inr rd \<Longrightarrow>
   map fst rd = ips \<and> (\<forall>(ip, f) \<in> set rd. rd_row cache ip = Inr f)"
proof (induction ips arbitrary: rd)
  case Nil
  then show ?case by simp
next
  case (Cons ip ips)
  from Cons.prems obtain f rest where
    f: "rd_row cache ip = Inr f" and r: "build_rows cache ips = Inr rest" and rd: "rd = (ip, f) # rest"
    by (auto simp: bind_exn_def split: sum.splits)
  from Cons.IH [OF r] f rd show ?case by simp
qed

lemma build_rows_total:
  "well_formed_cache cache ips \<Longrightarrow> \<exists>rd. build_rows cache ips = Inr rd"
proof (induction ips)
  case Nil
  then show ?case by simp
next
  case (Cons ip ips)
  then obtain rest where r: "build_rows cache ips = Inr rest"
    by (auto simp: well_formed_cache_def)
  have "\<exists>f. rd_row cache ip = Inr f"
  proof (cases "cached cache ip")
    case None
    then show ?thesis by (simp add: rd_row_no_entry)
  next
    case (Some c)
    with Cons.prems have "well_formed c" by (simp add: well_formed_cache_def)
    with Some show ?thesis by (rule rd_row_well_formed)
  qed
  with r show ?case by (auto simp: bind_exn_def)
qed

lemma merged_output_rows:
  assumes "merged_output ruua cache df = Inr out"
  shows "map fst out = rows df"
    and "(r, f) \<in> set out \<Longrightarrow> entry_at_merge ruua cache df r = None \<Longrightarrow> f = null_fields"
    and "(r, f) \<in> set out \<Longrightarrow> entry_at_merge ruua cache df r = Some c \<Longrightarrow> rdap_ok f = Some (entry_ok c)"
proof -
  let ?ips = "candidate_ips ruua df"
  from assms obtain rd where rd: "build_rows cache ?ips = Inr rd" and m: "merge_left (rows df) rd = Inr out"
    by (auto simp: merged_output_def bind_exn_def split: sum.splits)
  from build_rows_Inr [OF rd] have ips: "map fst rd = ?ips"
    and rows: "\<And>ip f. (ip, f) \<in> set rd \<Longrightarrow> rd_row cache ip = Inr f"
    by auto
  from m have out: "out = map (\<lambda>r. (r, case cells r ''src'' of
                               None \<Rightarrow> null_fields
                             | Some ip \<Rightarrow> (case map_of rd ip of None \<Rightarrow> null_fields | Some f \<Rightarrow> f)))
                    (rows df)"
    by (auto simp: merge_left_def split: if_splits)
  show "map fst out = rows df"
    by (simp add: out comp_def)
  {
    assume rf: "(r, f) \<in> set out"
    then have f: "f = (case cells r ''src'' of
                               None \<Rightarrow> null_fields
                             | Some ip \<Rightarrow> (case map_of rd ip of None \<Rightarrow> null_fields | Some f \<Rightarrow> f))"
      by (auto simp: out)
    {
      assume n: "entry_at_merge ruua cache df r = None"
      show "f = null_fields"
      proof (cases "cells r ''src''")
        case None
        with f show ?thesis by simp
      next
        case (Some ip)
        show ?thesis
        proof (cases "map_of rd ip")
          case None
          with Some f show ?thesis by simp
        next
          case (Some g)
          then have "(ip, g) \<in> set rd" by (rule map_of_SomeD)
          then have g: "rd_row cache ip = Inr g"
            by (rule rows)
          from \<open>(ip, g) \<in> set rd\<close> have "ip \<in> set (map fst rd)"
            by force
          then have "ip \<in> set ?ips"
            by (simp only: ips)
          with n \<open>cells r ''src'' = Some ip\<close> have "cached cache ip = None"
            by (simp add: entry_at_merge_def)
          with g have "g = null_fields" by (simp add: rd_row_no_entry)
          with Some \<open>cells r ''src'' = Some ip\<close> f show ?thesis by simp
        qed
      qed
    }
    {
      assume s: "entry_at_merge ruua cache df r = Some c"
      then obtain ip where ip: "cells r ''src'' = Some ip" "ip \<in> set ?ips" "cached cache ip = Some c"
        by (auto simp: entry_at_merge_def split: option.splits if_splits)
      from ip(2) ips have "ip \<in> fst ` set rd" by (metis set_map)
      then obtain g where g: "map_of rd ip = Some g"
        by (metis domD dom_map_of_conv_image_fst)
      then have "(ip, g) \<in> set rd" by (rule map_of_SomeD)
      then have "rd_row cache ip = Inr g" by (rule rows)
      with ip(3) have "rdap_ok g = Some (entry_ok c)" by (rule rd_row_entry)
      with g ip(1) f show "rdap_ok f = Some (entry_ok c)" by simp
    }
  }
qed

lemma merged_output_total:
  assumes "well_formed_cache cache (candidate_ips ruua df)" and "candidate_ips ruua df \<noteq> []"
  shows "\<exists>out. merged_output ruua cache df = Inr out"
proof -
  from build_rows_total [OF assms(1)] obtain rd where rd: "build_rows cache (candidate_ips ruua df) = Inr rd"
    by blast
  with build_rows_Inr [OF rd] assms(2) have "rd \<noteq> []" by auto
  with rd show ?thesis by (simp add: merged_output_def bind_exn_def merge_left_def)
qed

lemma merged_output_no_candidates:
  "candidate_ips ruua df = [] \<Longrightarrow> merged_output ruua cache df = Inl (KeyError ''src'')"
  by (simp add: merged_output_def bind_exn_def merge_left_def)


text \<open>
  C10. In the merged output, a row whose source IP has no cache entry at merge time (it
  has no \<^verbatim>\<open>src\<close>, or its IP is not among the candidate IPs, or nothing non-empty is
  cached under it) carries a null \<^verbatim>\<open>rdap_ok\<close>, not false, and null in the other five
  RDAP fields. \<^verbatim>\<open>rdap_ok\<close> is null only for such rows; it is false exactly for the rows
  whose IP has a cache entry with a false \<^verbatim>\<open>ok\<close>, and true exactly for those with a true
  \<^verbatim>\<open>ok\<close>. The merged output has the rows of the input in their order, and it exists
  whenever there is a candidate IP and the cached entries are well formed.
\<close>

theorem merged_rdap_ok_null_vs_false:
  "(merged_output ruua cache df = Inr out \<and> (r, f) \<in> set out \<longrightarrow>
      (entry_at_merge ruua cache df r = None \<longrightarrow> f = null_fields)
      \<and> (rdap_ok f = None \<longleftrightarrow> entry_at_merge ruua cache df r = None)
      \<and> (rdap_ok f = Some False \<longleftrightarrow>
           (\<exists>c. entry_at_merge ruua cache df r = Some c \<and> \<not> entry_ok c))
      \<and> (rdap_ok f = Some True \<longleftrightarrow>
           (\<exists>c. entry_at_merge ruua cache df r = Some c \<and> entry_ok c)))
   \<and> (merged_output ruua cache df = Inr out \<longrightarrow> map fst out = rows df)
   \<and> (well_formed_cache cache (candidate_ips ruua df) \<and> candidate_ips ruua df \<noteq> [] \<longrightarrow>
        (\<exists>out. merged_output ruua cache df = Inr out))
   \<and> rdap_ok null_fields = None \<and> rdap_net_cc null_fields = JNull \<and> rdap_org null_fields = JNull
   \<and> rdap_cidr null_fields = JNull \<and> rir null_fields = JNull \<and> rdap_error null_fields = JNull"
proof -
  have a: "(entry_at_merge ruua cache df r = None \<longrightarrow> f = null_fields)
      \<and> (rdap_ok f = None \<longleftrightarrow> entry_at_merge ruua cache df r = None)
      \<and> (rdap_ok f = Some False \<longleftrightarrow>
           (\<exists>c. entry_at_merge ruua cache df r = Some c \<and> \<not> entry_ok c))
      \<and> (rdap_ok f = Some True \<longleftrightarrow>
           (\<exists>c. entry_at_merge ruua cache df r = Some c \<and> entry_ok c))"
    if m: "merged_output ruua cache df = Inr out" and rf: "(r, f) \<in> set out"
  proof (cases "entry_at_merge ruua cache df r")
    case None
    with merged_output_rows(2) [OF m rf] have "f = null_fields" by simp
    with None show ?thesis by (simp add: null_fields_def)
  next
    case (Some c)
    with merged_output_rows(3) [OF m rf] have "rdap_ok f = Some (entry_ok c)" by simp
    with Some show ?thesis by simp
  qed
  have b: "merged_output ruua cache df = Inr out \<longrightarrow> map fst out = rows df"
    using merged_output_rows(1) [of ruua cache df out] by blast
  have c: "well_formed_cache cache (candidate_ips ruua df) \<and> candidate_ips ruua df \<noteq> [] \<longrightarrow>
        (\<exists>out. merged_output ruua cache df = Inr out)"
    using merged_output_total [of cache ruua df] by blast
  have d: "rdap_ok null_fields = None \<and> rdap_net_cc null_fields = JNull \<and> rdap_org null_fields = JNull
   \<and> rdap_cidr null_fields = JNull \<and> rir null_fields = JNull \<and> rdap_error null_fields = JNull"
    by (simp add: null_fields_def)
  show ?thesis
    using a b c d by blast
qed

theorem merged_rdap_ok_null_vs_false_witness:
  "\<exists>fb fc.
     merged_output 0 [''C'' \<mapsto> JObj [(''ok'', JBool False), (''error'', JStr ''timeout'')]]
       \<lparr>columns = [''src''],
        rows = [\<lparr>asnum = None, cells = (\<lambda>c. if c = ''src'' then Some ''B'' else None)\<rparr>,
                \<lparr>asnum = None, cells = (\<lambda>c. if c = ''src'' then Some ''C'' else None)\<rparr>]\<rparr>
     = Inr [(\<lparr>asnum = None, cells = (\<lambda>c. if c = ''src'' then Some ''B'' else None)\<rparr>, fb),
            (\<lparr>asnum = None, cells = (\<lambda>c. if c = ''src'' then Some ''C'' else None)\<rparr>, fc)]
     \<and> fb = null_fields \<and> rdap_ok fb = None \<and> rdap_ok fc = Some False"
proof -
  let ?ec = "JObj [(''ok'', JBool False), (''error'', JStr ''timeout'')]"
  let ?cache = "[''C'' \<mapsto> ?ec]"
  let ?rb = "\<lparr>asnum = None, cells = (\<lambda>c. if c = ''src'' then Some ''B'' else None)\<rparr>"
  let ?rc = "\<lparr>asnum = None, cells = (\<lambda>c. if c = ''src'' then Some ''C'' else None)\<rparr>"
  let ?df = "\<lparr>columns = [''src''], rows = [?rb, ?rc]\<rparr>"
  have ips: "candidate_ips 0 ?df = [''B'', ''C'']"
    by (simp add: candidate_ips_def List.map_filter_def)
  have wf: "well_formed_cache ?cache (candidate_ips 0 ?df) \<and> candidate_ips 0 ?df \<noteq> []"
    unfolding ips by (simp add: well_formed_cache_def cached_def well_formed_def)
  with merged_rdap_ok_null_vs_false [of 0 ?cache ?df]
  obtain out where out: "merged_output 0 ?cache ?df = Inr out"
    by blast
  with merged_rdap_ok_null_vs_false [of 0 ?cache ?df out]
  have "map fst out = [?rb, ?rc]"
    by simp
  then obtain fb fc where o: "out = [(?rb, fb), (?rc, fc)]"
    by (auto simp: map_eq_Cons_conv)
  have eb: "entry_at_merge 0 ?cache ?df ?rb = None"
    by (simp add: entry_at_merge_def ips cached_def)
  have ec: "entry_at_merge 0 ?cache ?df ?rc = Some ?ec"
    by (simp add: entry_at_merge_def ips cached_def)
  have nk: "\<not> entry_ok ?ec"
    by (simp add: entry_ok_def getitem_def)
  have mb: "(?rb, fb) \<in> set out" and mc: "(?rc, fc) \<in> set out"
    by (simp_all add: o)
  from merged_rdap_ok_null_vs_false [of 0 ?cache ?df out ?rb fb] out mb eb
  have "fb = null_fields \<and> rdap_ok fb = None"
    by blast
  moreover from merged_rdap_ok_null_vs_false [of 0 ?cache ?df out ?rc fc] out mc ec nk
  have "rdap_ok fc = Some False"
    by blast
  ultimately show ?thesis
    using out o by blast
qed

subsection \<open>CDN/cloud filter\<close>

lemma CDN_DOMAIN_KEYS_nonempty: "CDN_DOMAIN_KEYS env \<noteq> []"
  by (simp add: CDN_DOMAIN_KEYS_def DEFAULT_DOMAIN_KEYS_def)

lemma CDN_ORG_KEYS_nonempty: "CDN_ORG_KEYS env \<noteq> []"
  by (simp add: CDN_ORG_KEYS_def DEFAULT_ORG_KEYS_def)

lemma re_search_nonempty:
  "keys \<noteq> [] \<Longrightarrow> re_search keys s \<longleftrightarrow> (\<exists>k \<in> set keys. contains_ci s k)"
  by (simp add: re_search_def contains_ci_def list_ex_iff)

lemma m_dom_signal:
  "keys \<noteq> [] \<Longrightarrow> m_dom keys df r \<longleftrightarrow> domain_signal keys df r"
  by (cases "cells r ''domain''")
     (simp_all add: m_dom_def domain_signal_def str_contains_def re_search_nonempty)

lemma m_asn_signal: "m_asn asns df r \<longleftrightarrow> asn_signal asns df r"
  by (cases "asnum r") (simp_all add: m_asn_def asn_signal_def)

lemma m_org_signal:
  "keys \<noteq> [] \<Longrightarrow> m_org keys df r \<longleftrightarrow> org_signal keys df r"
  by (simp add: m_org_def org_signal_def str_contains_def re_search_nonempty)

lemma exclude_cdn_rows:
  "rows (exclude_cdn (CDN_DOMAIN_KEYS ed) (CDN_ASNS ea) (CDN_ORG_KEYS eo) df)
   = filter (\<lambda>r. \<not> (domain_signal (CDN_DOMAIN_KEYS ed) df r
                      \<or> asn_signal (CDN_ASNS ea) df r
                      \<or> org_signal (CDN_ORG_KEYS eo) df r)) (rows df)"
  by (simp add: exclude_cdn_def m_dom_signal m_asn_signal m_org_signal
      CDN_DOMAIN_KEYS_nonempty CDN_ORG_KEYS_nonempty)

text \<open>
  C8. The filter keeps, in their order, exactly the rows on which none of the three
  signals fires, so it excludes a row if and only if at least one fires: the domain cell
  contains a configured domain keyword without regard to case; the ASN is in the
  configured exclusion set; the text of the organisation columns that the frame has,
  joined by spaces, contains a configured organisation keyword without regard to case.
  A row whose ASN is in the set is excluded whatever its domain and organisation cells; a
  column that the frame does not have, and a missing domain or ASN cell, fires no signal.
\<close>

theorem cdn_filter_three_signals:
  "rows (exclude_cdn (CDN_DOMAIN_KEYS ed) (CDN_ASNS ea) (CDN_ORG_KEYS eo) df)
     = filter (\<lambda>r. \<not> (domain_signal (CDN_DOMAIN_KEYS ed) df r
                        \<or> asn_signal (CDN_ASNS ea) df r
                        \<or> org_signal (CDN_ORG_KEYS eo) df r)) (rows df)
   \<and> (r \<in> set (rows df) \<longrightarrow>
        (r \<notin> set (rows (exclude_cdn (CDN_DOMAIN_KEYS ed) (CDN_ASNS ea) (CDN_ORG_KEYS eo) df))
         \<longleftrightarrow> domain_signal (CDN_DOMAIN_KEYS ed) df r
               \<or> asn_signal (CDN_ASNS ea) df r
               \<or> org_signal (CDN_ORG_KEYS eo) df r))
   \<and> (asn_signal (CDN_ASNS ea) df r \<longrightarrow>
        r \<notin> set (rows (exclude_cdn (CDN_DOMAIN_KEYS ed) (CDN_ASNS ea) (CDN_ORG_KEYS eo) df)))
   \<and> columns (exclude_cdn (CDN_DOMAIN_KEYS ed) (CDN_ASNS ea) (CDN_ORG_KEYS eo) df) = columns df
   \<and> (''domain'' \<notin> set (columns df) \<or> cells r ''domain'' = None \<longrightarrow> \<not> domain_signal dk df r)
   \<and> (''asnum'' \<notin> set (columns df) \<or> asnum r = None \<longrightarrow> \<not> asn_signal asns df r)
   \<and> (set (columns df) \<inter> {''asorg'', ''org'', ''isp'', ''rdap_org''} = {} \<longrightarrow> \<not> org_signal ok df r)"
proof -
  let ?out = "exclude_cdn (CDN_DOMAIN_KEYS ed) (CDN_ASNS ea) (CDN_ORG_KEYS eo) df"
  have a: "rows ?out
     = filter (\<lambda>r. \<not> (domain_signal (CDN_DOMAIN_KEYS ed) df r
                        \<or> asn_signal (CDN_ASNS ea) df r
                        \<or> org_signal (CDN_ORG_KEYS eo) df r)) (rows df)"
    by (rule exclude_cdn_rows)
  have b: "r \<in> set (rows df) \<longrightarrow>
        (r \<notin> set (rows ?out)
         \<longleftrightarrow> domain_signal (CDN_DOMAIN_KEYS ed) df r
               \<or> asn_signal (CDN_ASNS ea) df r
               \<or> org_signal (CDN_ORG_KEYS eo) df r)"
    unfolding a by simp
  have c: "asn_signal (CDN_ASNS ea) df r \<longrightarrow> r \<notin> set (rows ?out)"
    unfolding a by simp
  have d: "columns ?out = columns df"
    by (simp add: exclude_cdn_def)
  have e: "''domain'' \<notin> set (columns df) \<or> cells r ''domain'' = None \<longrightarrow> \<not> domain_signal dk df r"
    by (auto simp: domain_signal_def)
  have f: "''asnum'' \<notin> set (columns df) \<or> asnum r = None \<longrightarrow> \<not> asn_signal asns df r"
    by (auto simp: asn_signal_def)
  have g: "set (columns df) \<inter> {''asorg'', ''org'', ''isp'', ''rdap_org''} = {} \<longrightarrow> \<not> org_signal ok df r"
    by (auto simp: org_signal_def org_cols_def)
  show ?thesis
    using a b c d e f g by blast
qed

theorem cdn_filter_three_signals_witness:
  "\<lparr>asnum = Some 64500, cells = (\<lambda>c. if c = ''domain'' then Some ''CDN.example.com'' else None)\<rparr>
     \<notin> set (rows (exclude_cdn (CDN_DOMAIN_KEYS []) (CDN_ASNS []) (CDN_ORG_KEYS [])
          \<lparr>columns = [''src'', ''domain'', ''asnum''],
           rows = [\<lparr>asnum = Some 64500, cells = (\<lambda>c. if c = ''domain'' then Some ''CDN.example.com'' else None)\<rparr>,
                   \<lparr>asnum = Some 13335, cells = (\<lambda>c. None)\<rparr>,
                   \<lparr>asnum = Some 64500, cells = (\<lambda>c. if c = ''domain'' then Some ''example.org'' else None)\<rparr>]\<rparr>))
   \<and> \<lparr>asnum = Some 13335, cells = (\<lambda>c. None)\<rparr>
     \<notin> set (rows (exclude_cdn (CDN_DOMAIN_KEYS []) (CDN_ASNS []) (CDN_ORG_KEYS [])
          \<lparr>columns = [''src'', ''domain'', ''asnum''],
           rows = [\<lparr>asnum = Some 64500, cells = (\<lambda>c. if c = ''domain'' then Some ''CDN.example.com'' else None)\<rparr>,
                   \<lparr>asnum = Some 13335, cells = (\<lambda>c. None)\<rparr>,
                   \<lparr>asnum = Some 64500, cells = (\<lambda>c. if c = ''domain'' then Some ''example.org'' else None)\<rparr>]\<rparr>))
   \<and> \<lparr>asnum = Some 64500, cells = (\<lambda>c. if c = ''domain'' then Some ''example.org'' else None)\<rparr>
     \<in> set (rows (exclude_cdn (CDN_DOMAIN_KEYS []) (CDN_ASNS []) (CDN_ORG_KEYS [])
          \<lparr>columns = [''src'', ''domain'', ''asnum''],
           rows = [\<lparr>asnum = Some 64500, cells = (\<lambda>c. if c = ''domain'' then Some ''CDN.example.com'' else None)\<rparr>,
                   \<lparr>asnum = Some 13335, cells = (\<lambda>c. None)\<rparr>,
                   \<lparr>asnum = Some 64500, cells = (\<lambda>c. if c = ''domain'' then Some ''example.org'' else None)\<rparr>]\<rparr>))"
proof -
  let ?r1 = "\<lparr>asnum = Some 64500, cells = (\<lambda>c. if c = ''domain'' then Some ''CDN.example.com'' else None)\<rparr>"
  let ?r2 = "\<lparr>asnum = Some 13335, cells = (\<lambda>c. None)\<rparr>"
  let ?r3 = "\<lparr>asnum = Some 64500, cells = (\<lambda>c. if c = ''domain'' then Some ''example.org'' else None)\<rparr>"
  let ?df = "\<lparr>columns = [''src'', ''domain'', ''asnum''], rows = [?r1, ?r2, ?r3]\<rparr>"
  let ?dk = "CDN_DOMAIN_KEYS []" and ?as = "CDN_ASNS []" and ?ok = "CDN_ORG_KEYS []"
  have m1: "m_dom ?dk ?df ?r1" by code_simp
  have m2: "m_asn ?as ?df ?r2" by code_simp
  have m3: "\<not> m_dom ?dk ?df ?r3" "\<not> m_asn ?as ?df ?r3" "\<not> m_org ?ok ?df ?r3" by code_simp+
  have s1: "domain_signal ?dk ?df ?r1"
    using m1 by (simp only: m_dom_signal [OF CDN_DOMAIN_KEYS_nonempty])
  have s2: "asn_signal ?as ?df ?r2"
    using m2 by (simp only: m_asn_signal)
  have s3: "\<not> (domain_signal ?dk ?df ?r3 \<or> asn_signal ?as ?df ?r3 \<or> org_signal ?ok ?df ?r3)"
    using m3 by (simp only: m_dom_signal [OF CDN_DOMAIN_KEYS_nonempty] m_asn_signal
        m_org_signal [OF CDN_ORG_KEYS_nonempty] simp_thms)
  have i1: "?r1 \<in> set (rows ?df)" and i2: "?r2 \<in> set (rows ?df)" and i3: "?r3 \<in> set (rows ?df)"
    by simp_all
  from cdn_filter_three_signals [of "[]" "[]" "[]" ?df ?r1] i1 s1
  have e1: "?r1 \<notin> set (rows (exclude_cdn ?dk ?as ?ok ?df))" by blast
  from cdn_filter_three_signals [of "[]" "[]" "[]" ?df ?r2] s2
  have e2: "?r2 \<notin> set (rows (exclude_cdn ?dk ?as ?ok ?df))" by blast
  from cdn_filter_three_signals [of "[]" "[]" "[]" ?df ?r3] i3 s3
  have e3: "?r3 \<in> set (rows (exclude_cdn ?dk ?as ?ok ?df))" by blast
  from e1 e2 e3 show ?thesis by blast
qed

subsection \<open>Rate limiter\<close>

lemma acquire_step:
  assumes "0 \<le> tb_tokens b" "tb_tokens b \<le> of_int burst" "tb_last b \<le> now" "0 < qps"
  shows "rate_limit_token_bucket qps burst now b =
     (let refilled = min (of_int burst) (tb_tokens b + (now - tb_last b) * qps)
      in if 1 \<le> refilled
         then (Inr 0, \<lparr>tb_tokens = refilled - 1, tb_last = now\<rparr>)
         else (Inr ((1 - refilled) / qps), \<lparr>tb_tokens = refilled, tb_last = now\<rparr>))"
proof -
  define refilled where "refilled = min (of_int burst) (tb_tokens b + (now - tb_last b) * qps)"
  define b1 where "b1 = (if (now - tb_last b) * qps > 0
               then b\<lparr>tb_tokens := min (of_int burst) (tb_tokens b + (now - tb_last b) * qps), tb_last := now\<rparr>
               else b)"
  have b1: "b1 = \<lparr>tb_tokens = refilled, tb_last = now\<rparr>"
  proof (cases "(now - tb_last b) * qps > 0")
    case True
    then show ?thesis by (simp add: b1_def refilled_def)
  next
    case False
    with assms have "now - tb_last b \<le> 0"
      by (simp add: zero_less_mult_iff not_less)
    with assms have n: "now = tb_last b" by simp
    with assms have "refilled = tb_tokens b" by (simp add: refilled_def)
    with False n show ?thesis by (simp add: b1_def)
  qed
  have w: "max 0 ((1 - refilled) / qps) = (1 - refilled) / qps" if "\<not> 1 \<le> refilled"
  proof -
    from that assms(4) have "0 \<le> (1 - refilled) / qps" by simp
    then show ?thesis by simp
  qed
  have "rate_limit_token_bucket qps burst now b =
      (if tb_tokens b1 \<ge> 1 then (Inr 0, b1\<lparr>tb_tokens := tb_tokens b1 - 1\<rparr>)
       else if qps = 0 then (Inl (ZeroDivisionError ''float division by zero''), b1)
            else (Inr (max 0 ((1 - tb_tokens b1) / qps)), b1))"
    by (simp add: rate_limit_token_bucket_def Let_def b1_def)
  also have "\<dots> = (if 1 \<le> refilled
         then (Inr 0, \<lparr>tb_tokens = refilled - 1, tb_last = now\<rparr>)
         else (Inr ((1 - refilled) / qps), \<lparr>tb_tokens = refilled, tb_last = now\<rparr>))"
    using assms(4) w by (simp add: b1)
  finally show ?thesis
    by (simp add: Let_def refilled_def)
qed

lemma acquire_invariant:
  assumes "0 \<le> tb_tokens b" "tb_tokens b \<le> of_int burst" "tb_last b \<le> now" "0 < qps"
  shows "0 \<le> tb_tokens (snd (rate_limit_token_bucket qps burst now b))"
    and "tb_tokens (snd (rate_limit_token_bucket qps burst now b)) \<le> of_int burst"
    and "tb_last (snd (rate_limit_token_bucket qps burst now b)) = now"
    and "\<exists>w. fst (rate_limit_token_bucket qps burst now b) = Inr w \<and> 0 \<le> w"
proof -
  define refilled where "refilled = min (of_int burst) (tb_tokens b + (now - tb_last b) * qps)"
  have "0 \<le> (now - tb_last b) * qps" using assms by simp
  then have "0 \<le> tb_tokens b + (now - tb_last b) * qps" using assms(1) by linarith
  moreover have "(0::real) \<le> of_int burst" using assms(1,2) by linarith
  ultimately have r0: "0 \<le> refilled" by (simp add: refilled_def)
  have r1: "refilled \<le> of_int burst" by (simp add: refilled_def)
  note step = acquire_step [OF assms, unfolded Let_def, folded refilled_def]
  show "0 \<le> tb_tokens (snd (rate_limit_token_bucket qps burst now b))"
    using r0 by (simp add: step)
  show "tb_tokens (snd (rate_limit_token_bucket qps burst now b)) \<le> of_int burst"
    using r1 by (simp add: step)
  show "tb_last (snd (rate_limit_token_bucket qps burst now b)) = now"
    by (simp add: step)
  show "\<exists>w. fst (rate_limit_token_bucket qps burst now b) = Inr w \<and> 0 \<le> w"
    using assms(4) by (simp add: step)
qed

lemma burst_then_wait:
  assumes "0 < qps" and "int m \<le> burst"
  shows "fst (acquire_seq qps burst (replicate (Suc m) t0) \<lparr>tb_tokens = real m, tb_last = t0\<rparr>)
         = replicate m (Inr 0) @ [Inr (1 / qps)]"
  using assms(2)
proof (induction m)
  case 0
  then show ?case
    using assms(1) by (simp add: rate_limit_token_bucket_def max_def)
next
  case (Suc m)
  have "rate_limit_token_bucket qps burst t0 \<lparr>tb_tokens = real (Suc m), tb_last = t0\<rparr>
        = (Inr 0, \<lparr>tb_tokens = real m, tb_last = t0\<rparr>)"
    by (simp add: rate_limit_token_bucket_def)
  moreover have "fst (acquire_seq qps burst (replicate (Suc m) t0) \<lparr>tb_tokens = real m, tb_last = t0\<rparr>)
         = replicate m (Inr 0) @ [Inr (1 / qps)]"
    using Suc by simp
  ultimately show ?case
    by (simp add: split_beta)
qed


lemma acquire_zero_rate:
  assumes "tb_tokens b < 1"
  shows "fst (rate_limit_token_bucket 0 burst now b) = Inl (ZeroDivisionError ''float division by zero'')"
  using assms by (simp add: rate_limit_token_bucket_def)

text \<open>
  C3. Take a bucket with \<open>0 \<le> tokens \<le> capacity\<close>, a clock reading not before the last
  refill, and a positive rate \<open>qps\<close>. An acquisition first adds \<open>elapsed * qps\<close> tokens,
  capped at the capacity. If at least one token is then there, it takes exactly one and
  returns a zero wait; otherwise it returns \<open>(1 - tokens) / qps\<close> and takes nothing. The
  tokens stay between 0 and the capacity, the call does not raise and its wait is never
  negative. From a full bucket, with no time passing, exactly \<open>burst\<close> consecutive
  acquisitions return a zero wait and the next one returns the positive wait \<open>1 / qps\<close>.
\<close>

theorem token_bucket_acquire:
  "(0 \<le> tb_tokens b \<and> tb_tokens b \<le> of_int burst \<and> tb_last b \<le> now \<and> 0 < qps \<longrightarrow>
      rate_limit_token_bucket qps burst now b =
        (let refilled = min (of_int burst) (tb_tokens b + (now - tb_last b) * qps)
         in if 1 \<le> refilled
            then (Inr 0, \<lparr>tb_tokens = refilled - 1, tb_last = now\<rparr>)
            else (Inr ((1 - refilled) / qps), \<lparr>tb_tokens = refilled, tb_last = now\<rparr>))
      \<and> 0 \<le> tb_tokens (snd (rate_limit_token_bucket qps burst now b))
      \<and> tb_tokens (snd (rate_limit_token_bucket qps burst now b)) \<le> of_int burst
      \<and> (\<exists>w. fst (rate_limit_token_bucket qps burst now b) = Inr w \<and> 0 \<le> w))
   \<and> (0 < qps \<and> 0 \<le> burst \<longrightarrow>
        fst (acquire_seq qps burst (replicate (Suc (nat burst)) t0) (tb_init burst t0))
          = replicate (nat burst) (Inr 0) @ [Inr (1 / qps)]
        \<and> 0 < 1 / qps)"
proof -
  have a: "rate_limit_token_bucket qps burst now b =
        (let refilled = min (of_int burst) (tb_tokens b + (now - tb_last b) * qps)
         in if 1 \<le> refilled
            then (Inr 0, \<lparr>tb_tokens = refilled - 1, tb_last = now\<rparr>)
            else (Inr ((1 - refilled) / qps), \<lparr>tb_tokens = refilled, tb_last = now\<rparr>))
      \<and> 0 \<le> tb_tokens (snd (rate_limit_token_bucket qps burst now b))
      \<and> tb_tokens (snd (rate_limit_token_bucket qps burst now b)) \<le> of_int burst
      \<and> (\<exists>w. fst (rate_limit_token_bucket qps burst now b) = Inr w \<and> 0 \<le> w)"
    if "0 \<le> tb_tokens b \<and> tb_tokens b \<le> of_int burst \<and> tb_last b \<le> now \<and> 0 < qps"
  proof -
    from that have h: "0 \<le> tb_tokens b" "tb_tokens b \<le> of_int burst" "tb_last b \<le> now" "0 < qps"
      by simp_all
    show ?thesis
      using acquire_step [OF h] acquire_invariant(1) [OF h] acquire_invariant(2) [OF h]
        acquire_invariant(4) [OF h]
      by blast
  qed
  have b: "fst (acquire_seq qps burst (replicate (Suc (nat burst)) t0) (tb_init burst t0))
          = replicate (nat burst) (Inr 0) @ [Inr (1 / qps)]
        \<and> 0 < 1 / qps"
    if "0 < qps \<and> 0 \<le> burst"
  proof -
    from that have q: "0 < qps" and m: "int (nat burst) \<le> burst" by simp_all
    from that have i: "tb_init burst t0 = \<lparr>tb_tokens = real (nat burst), tb_last = t0\<rparr>"
      by (simp add: tb_init_def)
    show ?thesis
      using burst_then_wait [OF q m, of t0] q by (simp only: i) simp
  qed
  show ?thesis
    using a b by blast
qed

theorem token_bucket_acquire_witness:
  "rate_limit_token_bucket 12 2 (41 / 4) \<lparr>tb_tokens = 1 / 2, tb_last = 10\<rparr>
     = (Inr 0, \<lparr>tb_tokens = 1, tb_last = 41 / 4\<rparr>)
   \<and> rate_limit_token_bucket 12 2 10 \<lparr>tb_tokens = 1 / 2, tb_last = 10\<rparr>
     = (Inr (1 / 24), \<lparr>tb_tokens = 1 / 2, tb_last = 10\<rparr>)
   \<and> fst (acquire_seq 12 2 [0, 0, 0] (tb_init 2 0)) = [Inr 0, Inr 0, Inr (1 / 12)]"
proof -
  let ?b = "\<lparr>tb_tokens = 1 / 2, tb_last = 10\<rparr>"
  have h1: "0 \<le> tb_tokens ?b \<and> tb_tokens ?b \<le> of_int 2 \<and> tb_last ?b \<le> 41 / 4 \<and> (0::real) < 12"
    by simp
  have h2: "0 \<le> tb_tokens ?b \<and> tb_tokens ?b \<le> of_int 2 \<and> tb_last ?b \<le> 10 \<and> (0::real) < 12"
    by simp
  have h3: "(0::real) < 12 \<and> (0::int) \<le> 2"
    by simp
  from token_bucket_acquire [of ?b 2 "41 / 4" 12] h1
  have "rate_limit_token_bucket 12 2 (41 / 4) ?b =
        (let refilled = min (of_int 2) (tb_tokens ?b + (41 / 4 - tb_last ?b) * 12)
         in if 1 \<le> refilled
            then (Inr 0, \<lparr>tb_tokens = refilled - 1, tb_last = 41 / 4\<rparr>)
            else (Inr ((1 - refilled) / 12), \<lparr>tb_tokens = refilled, tb_last = 41 / 4\<rparr>))"
    by blast
  then have r1: "rate_limit_token_bucket 12 2 (41 / 4) ?b = (Inr 0, \<lparr>tb_tokens = 1, tb_last = 41 / 4\<rparr>)"
    by (simp add: Let_def)
  from token_bucket_acquire [of ?b 2 10 12] h2
  have "rate_limit_token_bucket 12 2 10 ?b =
        (let refilled = min (of_int 2) (tb_tokens ?b + (10 - tb_last ?b) * 12)
         in if 1 \<le> refilled
            then (Inr 0, \<lparr>tb_tokens = refilled - 1, tb_last = 10\<rparr>)
            else (Inr ((1 - refilled) / 12), \<lparr>tb_tokens = refilled, tb_last = 10\<rparr>))"
    by blast
  then have r2: "rate_limit_token_bucket 12 2 10 ?b = (Inr (1 / 24), \<lparr>tb_tokens = 1 / 2, tb_last = 10\<rparr>)"
    by (simp add: Let_def)
  from token_bucket_acquire [of _ 2 _ 12 0] h3
  have "fst (acquire_seq 12 2 (replicate (Suc (nat 2)) 0) (tb_init 2 0))
          = replicate (nat 2) (Inr 0) @ [Inr (1 / 12)]"
    by blast
  then have r3: "fst (acquire_seq 12 2 [0, 0, 0] (tb_init 2 0)) = [Inr 0, Inr 0, Inr (1 / 12)]"
    by (simp add: numeral_2_eq_2 del: acquire_seq.simps)
  from r1 r2 r3 show ?thesis by blast
qed

subsection \<open>Backoff\<close>

lemma delay_at_Suc: "min (delay_at k * 2) 16 = delay_at (Suc k)"
  by (simp add: delay_at_def min_def)

lemma backoff_loop_spec:
  assumes "n \<le> m"
    and "\<forall>i<n. transient_failure (func (k + i))"
    and "n < m \<longrightarrow> \<not> transient_failure (func (k + n))"
  shows "backoff_loop m func rnd (delay_at k) k slept
         = (if n < m then Some (func (k + n)) else None,
            if n < m then Suc (k + n) else k + n,
            slept @ map (sleep_at rnd) [k..<k + n])"
  using assms
proof (induction m arbitrary: n k slept)
  case 0
  then show ?case by simp
next
  case (Suc m)
  show ?case
  proof (cases n)
    case 0
    with Suc.prems show ?thesis
      by (auto simp: transient_failure_def split: sum.splits)
  next
    case (Suc n')
    with Suc.prems have t: "transient_failure (func k)" by auto
    then obtain e where e: "func k = Inl e" "is_transient (str_exn e)"
      by (auto simp: transient_failure_def split: sum.splits)
    have "backoff_loop m func rnd (delay_at (Suc k)) (Suc k) (slept @ [sleep_at rnd k])
         = (if n' < m then Some (func (Suc k + n')) else None,
            if n' < m then Suc (Suc k + n') else Suc k + n',
            (slept @ [sleep_at rnd k]) @ map (sleep_at rnd) [Suc k..<Suc k + n'])"
    proof (rule Suc.IH)
      show "n' \<le> m" using Suc.prems Suc by simp
      show "\<forall>i<n'. transient_failure (func (Suc k + i))"
        using Suc.prems(2) Suc by (metis Suc_less_eq add_Suc_shift)
      show "n' < m \<longrightarrow> \<not> transient_failure (func (Suc k + n'))"
        using Suc.prems(3) Suc by simp
    qed
    moreover have "[k..<k + n] = k # [Suc k..<Suc k + n']"
      using Suc by (simp add: upt_conv_Cons)
    moreover have "backoff_loop (Suc m) func rnd (delay_at k) k slept
         = backoff_loop m func rnd (delay_at (Suc k)) (Suc k) (slept @ [sleep_at rnd k])"
      using e by (simp add: delay_at_Suc sleep_at_def)
    ultimately show ?thesis
      using Suc by simp
  qed
qed

lemma with_backoff_spec:
  assumes "n \<le> 6"
    and "\<forall>i<n. transient_failure (func i)"
    and "n < 6 \<longrightarrow> \<not> transient_failure (func n)"
  shows "with_backoff func rnd = (func n, Suc n, map (sleep_at rnd) [0..<n])"
proof -
  have d: "(0.5::real) = delay_at 0" by (simp add: delay_at_def)
  have "backoff_loop 6 func rnd (delay_at 0) 0 []
         = (if n < 6 then Some (func (0 + n)) else None,
            if n < 6 then Suc (0 + n) else 0 + n,
            [] @ map (sleep_at rnd) [0..<0 + n])"
    by (rule backoff_loop_spec) (use assms in simp_all)
  then show ?thesis
    using assms(1) unfolding with_backoff_def d by (cases "n < 6") simp_all
qed

lemma delays: "map delay_at [0..<6] = [0.5, 1, 2, 4, 8, 16]"
  by (simp add: delay_at_def upt_conv_Cons)


lemma jitter_bounds:
  assumes "0 \<le> rnd i" and "rnd i < 1"
  shows "delay_at i \<le> sleep_at rnd i" and "sleep_at rnd i < delay_at i + 0.2 * delay_at i"
proof -
  have d: "0 < delay_at i" by (simp add: delay_at_def)
  from assms(1) d have "0 \<le> rnd i * delay_at i * 0.2" by simp
  then show "delay_at i \<le> sleep_at rnd i" by (simp add: sleep_at_def)
  from assms(2) d have "rnd i * delay_at i < 1 * delay_at i"
    by (rule mult_strict_right_mono)
  then show "sleep_at rnd i < delay_at i + 0.2 * delay_at i" by (simp add: sleep_at_def)
qed

lemma transient_failure_iff:
  "transient_failure r \<longleftrightarrow>
     (\<exists>e. r = Inl e \<and> (sublist ''429'' (str_lower (str_exn e))
                       \<or> sublist ''rate'' (str_lower (str_exn e))
                       \<or> sublist ''too many'' (str_lower (str_exn e))))"
  by (cases r) (simp_all add: transient_failure_def is_transient_def Let_def)

text \<open>
  C4. Let \<open>n\<close> be the number of leading calls that fail with a transient error (one whose
  lower-cased text contains \<^verbatim>\<open>429\<close>, \<^verbatim>\<open>rate\<close> or \<^verbatim>\<open>too many\<close>), counted up to the ceiling
  of 6 guarded attempts. The wrapper makes exactly \<open>n + 1\<close> calls and hands on the
  outcome of the last one as it is. So an error that is not transient propagates from the
  attempt that raised it with no retry, a success returns its value at once with no
  further attempt, and after 6 transient failures one final attempt is made whose value
  or exception is the result, also when that exception is transient. Each of the \<open>n\<close>
  transient failures is followed by one sleep of the delay plus jitter: the delay starts
  at 0.5 s, doubles after each retry and is capped at 16 s; the jitter is the random
  number times 20% of the delay, so below 20% of it.
\<close>

theorem backoff_policy:
  "(n \<le> 6 \<and> (\<forall>i<n. transient_failure (func i)) \<and> (n < 6 \<longrightarrow> \<not> transient_failure (func n)) \<longrightarrow>
      with_backoff func rnd = (func n, Suc n, map (sleep_at rnd) [0..<n]))
   \<and> (transient_failure r \<longleftrightarrow>
        (\<exists>e. r = Inl e \<and> (sublist ''429'' (str_lower (str_exn e))
                          \<or> sublist ''rate'' (str_lower (str_exn e))
                          \<or> sublist ''too many'' (str_lower (str_exn e)))))
   \<and> sleep_at rnd i = delay_at i + rnd i * delay_at i * 0.2
   \<and> delay_at 0 = 0.5 \<and> delay_at (Suc i) = min (delay_at i * 2) 16
   \<and> map delay_at [0..<6] = [0.5, 1, 2, 4, 8, 16]
   \<and> (0 \<le> rnd i \<and> rnd i < 1 \<longrightarrow>
        delay_at i \<le> sleep_at rnd i \<and> sleep_at rnd i < delay_at i + 0.2 * delay_at i)"
proof -
  have a: "n \<le> 6 \<and> (\<forall>i<n. transient_failure (func i)) \<and> (n < 6 \<longrightarrow> \<not> transient_failure (func n)) \<longrightarrow>
      with_backoff func rnd = (func n, Suc n, map (sleep_at rnd) [0..<n])"
    using with_backoff_spec [of n func rnd] by blast
  have b: "sleep_at rnd i = delay_at i + rnd i * delay_at i * 0.2"
    by (simp add: sleep_at_def)
  have c: "delay_at 0 = 0.5" "delay_at (Suc i) = min (delay_at i * 2) 16"
    by (simp_all add: delay_at_def delay_at_Suc [symmetric])
  have d: "0 \<le> rnd i \<and> rnd i < 1 \<longrightarrow>
        delay_at i \<le> sleep_at rnd i \<and> sleep_at rnd i < delay_at i + 0.2 * delay_at i"
    using jitter_bounds [of rnd i] by blast
  show ?thesis
    by (intro conjI a transient_failure_iff b c delays d)
qed

theorem backoff_policy_witness:
  "with_backoff (\<lambda>k. if k < 2 then Inl (Failure ''HTTP 429 Too Many Requests'') else Inr (7::nat))
     (\<lambda>k. 1 / 2)
   = (Inr 7, 3, [sleep_at (\<lambda>k. 1 / 2) 0, sleep_at (\<lambda>k. 1 / 2) 1])
   \<and> with_backoff (\<lambda>k. Inl (Failure ''connection refused'') :: exn + nat) (\<lambda>k. 1 / 2)
   = (Inl (Failure ''connection refused''), 1, [])
   \<and> sleep_at (\<lambda>k. 1 / 2) 1 = 11 / 10"
proof -
  let ?f = "\<lambda>k::nat. if k < 2 then Inl (Failure ''HTTP 429 Too Many Requests'') else Inr (7::nat)"
  let ?g = "\<lambda>k::nat. Inl (Failure ''connection refused'') :: exn + nat"
  let ?rnd = "\<lambda>k::nat. (1 / 2 :: real)"
  have t: "transient_failure (Inl (Failure ''HTTP 429 Too Many Requests'') :: exn + nat)"
    by code_simp
  have nt: "\<not> transient_failure (Inl (Failure ''connection refused'') :: exn + nat)"
    by code_simp
  have h1: "(2::nat) \<le> 6 \<and> (\<forall>i<2. transient_failure (?f i)) \<and> ((2::nat) < 6 \<longrightarrow> \<not> transient_failure (?f 2))"
    using t by (simp add: transient_failure_def)
  have h2: "(0::nat) \<le> 6 \<and> (\<forall>i<0. transient_failure (?g i)) \<and> ((0::nat) < 6 \<longrightarrow> \<not> transient_failure (?g 0))"
    using nt by simp
  have w: "with_backoff ?f ?rnd = (?f 2, Suc 2, map (sleep_at ?rnd) [0..<2])"
    by (rule mp [OF conjunct1 [OF backoff_policy [of 2 ?f ?rnd]] h1])
  have u: "map (sleep_at ?rnd) [0..<2] = [sleep_at ?rnd 0, sleep_at ?rnd 1]"
    by (simp add: upt_rec)
  have r1: "with_backoff ?f ?rnd = (Inr 7, 3, [sleep_at ?rnd 0, sleep_at ?rnd 1])"
    unfolding w u by simp
  have w0: "with_backoff ?g ?rnd = (?g 0, Suc 0, map (sleep_at ?rnd) [0..<0])"
    by (rule mp [OF conjunct1 [OF backoff_policy [of 0 ?g ?rnd]] h2])
  have r2: "with_backoff ?g ?rnd = (Inl (Failure ''connection refused''), 1, [])"
    unfolding w0 by simp
  have r3: "sleep_at ?rnd 1 = 11 / 10"
    by (simp add: sleep_at_def delay_at_def)
  show ?thesis by (intro conjI r1 r2 r3)
qed

subsection \<open>Per-IP lookup\<close>

lemma py_upper_Inr: "py_upper x = Inr y \<longleftrightarrow> (\<exists>s. x = JStr s \<and> y = JStr (str_upper s))"
  by (cases x) (auto simp: py_upper_def)

lemma str_upper_Nil: "str_upper s = [] \<longleftrightarrow> s = []"
  by (simp add: str_upper_def)

lemma bind_exn_InrE:
  assumes "bind_exn m f = Inr v"
  obtains x where "m = Inr x" and "f x = Inr v"
  using assms by (cases m) (simp_all add: bind_exn_def)

lemma py_or_upper:
  "py_or (JStr (str_upper s)) JNull = JNull
   \<or> (\<exists>t. t \<noteq> [] \<and> py_or (JStr (str_upper s)) JNull = JStr (str_upper t))"
  by (cases "s = []") (auto simp: py_or_def str_upper_Nil)

lemma normalize_success:
  assumes "normalize_result r = Inr d"
  shows "success_entry d"
proof -
  from assms obtain country cc name asn_description cidr nir asn_registry where
    u: "py_upper (py_or country (JStr [])) = Inr cc" and
    d: "Inr (JObj [(''ok'', JBool True),
                   (''rdap_net_cc'', py_or cc JNull),
                   (''rdap_org'', py_or name asn_description),
                   (''rdap_cidr'', cidr),
                   (''rir'', py_or nir asn_registry)]) = Inr d"
    unfolding normalize_result_def Let_def
    by (elim bind_exn_InrE) blast
  from u obtain s where cc: "cc = JStr (str_upper s)"
    by (auto simp: py_upper_Inr)
  from d have d': "d = JObj [(''ok'', JBool True),
                   (''rdap_net_cc'', py_or cc JNull),
                   (''rdap_org'', py_or name asn_description),
                   (''rdap_cidr'', cidr),
                   (''rir'', py_or nir asn_registry)]"
    by simp
  from py_or_upper [of s] show ?thesis
    unfolding success_entry_def d' cc by blast
qed

lemma rdap_lookup_cases:
  "fst (rdap_lookup qps burst now b func rnd) =
     (case fst (rate_limit_token_bucket qps burst now b) of
        Inl e \<Rightarrow> Inr (failure_entry e)
      | Inr w \<Rightarrow>
          (case fst (with_backoff func rnd) of
             Inl e \<Rightarrow> Inr (failure_entry e)
           | Inr r \<Rightarrow> (case normalize_result r of Inl e \<Rightarrow> Inr (failure_entry e) | Inr d \<Rightarrow> Inr d)))"
proof (cases "rate_limit_token_bucket qps burst now b")
  case (Pair res b')
  show ?thesis
  proof (cases res)
    case (Inl e)
    with Pair show ?thesis
      by (simp add: rdap_lookup_def rdap_lookup_body_def try_except_def)
  next
    case (Inr w)
    show ?thesis
    proof (cases "fst (with_backoff func rnd)")
      case (Inl e)
      with Pair \<open>res = Inr w\<close> show ?thesis
        by (simp add: rdap_lookup_def rdap_lookup_body_def try_except_def bind_exn_def)
    next
      case r: (Inr r)
      with Pair \<open>res = Inr w\<close> show ?thesis
        by (cases "normalize_result r")
           (simp_all add: rdap_lookup_def rdap_lookup_body_def try_except_def bind_exn_def)
    qed
  qed
qed

lemma rdap_lookup_bucket:
  "snd (rdap_lookup qps burst now b func rnd) = snd (rate_limit_token_bucket qps burst now b)"
proof (cases "rate_limit_token_bucket qps burst now b")
  case (Pair res b')
  then show ?thesis
    by (cases res) (simp_all add: rdap_lookup_def rdap_lookup_body_def)
qed

lemma rdap_lookup_total:
  "\<exists>d. fst (rdap_lookup qps burst now b func rnd) = Inr d
        \<and> (success_entry d \<or> (\<exists>e. d = failure_entry e))"
proof (cases "fst (rate_limit_token_bucket qps burst now b)")
  case (Inl e)
  then show ?thesis by (auto simp: rdap_lookup_cases)
next
  case (Inr w)
  show ?thesis
  proof (cases "fst (with_backoff func rnd)")
    case (Inl e)
    with Inr show ?thesis by (auto simp: rdap_lookup_cases)
  next
    case r: (Inr r)
    show ?thesis
    proof (cases "normalize_result r")
      case (Inl e)
      with Inr r show ?thesis by (auto simp: rdap_lookup_cases)
    next
      case d: (Inr d)
      then have "success_entry d" by (rule normalize_success)
      with Inr r d show ?thesis by (auto simp: rdap_lookup_cases)
    qed
  qed
qed

text \<open>
  C9. The per-IP lookup never raises: whatever the rate limiter, the lookup under backoff
  and the normalisation do, it returns an entry, which is either a success entry (\<^verbatim>\<open>ok\<close>
  true, with the upper-cased network country code, organisation, CIDR and registry) or a
  failure entry. An exception raised by the rate limiter, escaping the backoff wrapper or
  raised while normalising gives the failure entry with \<^verbatim>\<open>ok\<close> false and the text of
  that exception as \<^verbatim>\<open>error\<close>; a lookup result that normalises gives its success entry.
\<close>

theorem rdap_lookup_never_raises:
  "(\<exists>d. fst (rdap_lookup qps burst now b func rnd) = Inr d
         \<and> (success_entry d \<or> (\<exists>e. d = failure_entry e)))
   \<and> (fst (rate_limit_token_bucket qps burst now b) = Inl e \<longrightarrow>
        fst (rdap_lookup qps burst now b func rnd) = Inr (failure_entry e))
   \<and> (fst (rate_limit_token_bucket qps burst now b) = Inr w
        \<and> fst (with_backoff func rnd) = Inl e \<longrightarrow>
        fst (rdap_lookup qps burst now b func rnd) = Inr (failure_entry e))
   \<and> (fst (rate_limit_token_bucket qps burst now b) = Inr w
        \<and> fst (with_backoff func rnd) = Inr r \<and> normalize_result r = Inl e \<longrightarrow>
        fst (rdap_lookup qps burst now b func rnd) = Inr (failure_entry e))
   \<and> (fst (rate_limit_token_bucket qps burst now b) = Inr w
        \<and> fst (with_backoff func rnd) = Inr r \<and> normalize_result r = Inr d \<longrightarrow>
        fst (rdap_lookup qps burst now b func rnd) = Inr d \<and> success_entry d)
   \<and> failure_entry e = JObj [(''ok'', JBool False), (''error'', JStr (str_exn e))]
   \<and> snd (rdap_lookup qps burst now b func rnd) = snd (rate_limit_token_bucket qps burst now b)"
proof -
  have c1: "fst (rate_limit_token_bucket qps burst now b) = Inl e \<longrightarrow>
        fst (rdap_lookup qps burst now b func rnd) = Inr (failure_entry e)"
    by (simp add: rdap_lookup_cases)
  have c2: "fst (rate_limit_token_bucket qps burst now b) = Inr w
        \<and> fst (with_backoff func rnd) = Inl e \<longrightarrow>
        fst (rdap_lookup qps burst now b func rnd) = Inr (failure_entry e)"
    by (simp add: rdap_lookup_cases)
  have c3: "fst (rate_limit_token_bucket qps burst now b) = Inr w
        \<and> fst (with_backoff func rnd) = Inr r \<and> normalize_result r = Inl e \<longrightarrow>
        fst (rdap_lookup qps burst now b func rnd) = Inr (failure_entry e)"
    by (simp add: rdap_lookup_cases)
  have c4: "fst (rate_limit_token_bucket qps burst now b) = Inr w
        \<and> fst (with_backoff func rnd) = Inr r \<and> normalize_result r = Inr d \<longrightarrow>
        fst (rdap_lookup qps burst now b func rnd) = Inr d \<and> success_entry d"
    using normalize_success [of r d] by (simp add: rdap_lookup_cases)
  have c5: "failure_entry e = JObj [(''ok'', JBool False), (''error'', JStr (str_exn e))]"
    by (simp add: failure_entry_def)
  show ?thesis
    by (intro conjI rdap_lookup_total c1 c2 c3 c4 c5 rdap_lookup_bucket)
qed

theorem rdap_lookup_never_raises_witness:
  "fst (rdap_lookup 12 2 0 (tb_init 2 0) (\<lambda>k. Inl (Failure ''timed out'')) (\<lambda>k. 0))
     = Inr (JObj [(''ok'', JBool False), (''error'', JStr ''timed out'')])"
proof -
  let ?func = "\<lambda>k::nat. Inl (Failure ''timed out'') :: exn + json"
  let ?rnd = "\<lambda>k::nat. 0 :: real"
  have nt: "\<not> transient_failure (?func 0)"
    by code_simp
  have wb: "with_backoff ?func ?rnd = (?func 0, Suc 0, map (sleep_at ?rnd) [0..<0])"
    by (rule with_backoff_spec) (use nt in simp_all)
  have h: "fst (rate_limit_token_bucket 12 2 0 (tb_init 2 0)) = Inr 0
        \<and> fst (with_backoff ?func ?rnd) = Inl (Failure ''timed out'')"
    unfolding wb by (simp add: rate_limit_token_bucket_def tb_init_def)
  note t = rdap_lookup_never_raises [of 12 2 0 "tb_init 2 0" ?func ?rnd "Failure ''timed out''" 0]
  have "fst (rdap_lookup 12 2 0 (tb_init 2 0) ?func ?rnd) = Inr (failure_entry (Failure ''timed out''))"
    by (rule mp [OF conjunct1 [OF conjunct2 [OF conjunct2 [OF t]]] h])
  then show ?thesis
    by (simp add: failure_entry_def)
qed

end
